theory Spec2Isabelle
  imports Complex_Main "HOL-Library.AList" "HOL-Library.Stream"
begin

section \<open>The REST API tester of apitester/node/api-tester.js\<close>

text \<open>
  The development embeds the class \<open>APITester\<close>: the parser of the curl command, the
  generators of test cases, the path helpers, the executor and the classifier.

  Conventions of the embedding.
  \<^item> JavaScript values are the datatype \<open>json\<close>. A plain object is the list of its own
    enumerable entries in enumeration order, with distinct keys: the names that are array
    indices first, in ascending order, then the other names in the order of their creation.
    A read that finds no own entry goes on to \<open>Object.prototype\<close> (\<open>readMember\<close>).
  \<^item> Objects are values. The one object of the program that is reachable from several
    places and changed afterwards, the \<open>{}\<close> in the pool of \<open>generateFuzzTests\<close>, is held by
    reference: the constructor \<open>JPool\<close>.
  \<^item> Text is \<open>string\<close>; a code unit is a \<open>char\<close>. The one constant of the source outside
    that range, the emoji sample of the edge generator, is written in its UTF-8 bytes.
  \<^item> Numbers of payloads are rationals, status codes are integers. (\<open>Infinity\<close>, which
    \<open>JSON.parse\<close> returns for a literal beyond the range of a double and which a clone turns
    into \<open>null\<close>, is not a value of the model.)
  \<^item> A call that writes a member of \<open>Object.prototype\<close> or replaces the prototype of an
    object is reported as such (\<open>WroteObjectPrototype\<close>, \<open>SetPrototype\<close>); what the program
    does after such a call is not followed. A call comes to it only if a segment of its
    path is \<open>__proto__\<close>, and the paths of the generators are made of keys of the payload.
  \<^item> \<open>Math.random\<close> is a stream of reals that the generators consume; the network is a
    function from the call number and the request to what happened on the wire.
  \<^item> \<open>console.log\<close> output is left out, except where a function reports a skipped
    mutation: there the diagnostic is part of the result.
\<close>

subsection \<open>Values\<close>

datatype json =
    JUndefined
  | JNull
  | JBool bool
  | JNum rat
  | JStr string
  | JArr "json list"
  | JObj "(string \<times> json) list"
  | JPool

type_synonym entries = "(string \<times> json) list"

text \<open>
  \<open>JPool\<close> is a reference to the object \<open>{}\<close> that \<open>generateFuzzTests\<close> creates once per call
  in its pool of values. While the fuzz cases are generated the generator keeps the entries
  of that object; in a finished payload they are written out where the object is reached,
  and a \<open>JPool\<close> among them is the reference back to the object: the payload is circular.
  No other value of the program holds a \<open>JPool\<close>.
\<close>

text \<open>\<open>typeof value === 'object' && value !== null && !Array.isArray(value)\<close>\<close>

fun isPlainObject :: "json \<Rightarrow> bool" where
  "isPlainObject (JObj kvs) = True"
| "isPlainObject JPool = True"
| "isPlainObject v = False"

text \<open>\<open>typeof value === 'object' && value !== null\<close>: objects and arrays.\<close>

fun isObjectLike :: "json \<Rightarrow> bool" where
  "isObjectLike (JObj kvs) = True"
| "isObjectLike (JArr xs) = True"
| "isObjectLike JPool = True"
| "isObjectLike v = False"

text \<open>JavaScript truthiness, as used by \<open>if (x.data)\<close> and \<open>!parsed.url\<close>.\<close>

fun truthy :: "json \<Rightarrow> bool" where
  "truthy JUndefined = False"
| "truthy JNull = False"
| "truthy (JBool b) = b"
| "truthy (JNum n) = (n \<noteq> 0)"
| "truthy (JStr s) = (s \<noteq> [])"
| "truthy (JArr xs) = True"
| "truthy (JObj kvs) = True"
| "truthy JPool = True"

text \<open>
  A value reaches the pool's object, and a payload that has been written out is circular:
  \<open>JSON.stringify\<close> throws a \<open>TypeError\<close> on it.
\<close>

fun reachesPool :: "json \<Rightarrow> bool" where
  "reachesPool JPool = True"
| "reachesPool (JObj kvs) = list_ex (\<lambda>kv. reachesPool (snd kv)) kvs"
| "reachesPool (JArr xs) = list_ex reachesPool xs"
| "reachesPool v = False"

definition circular :: "json \<Rightarrow> bool" where
  "circular v = reachesPool v"

subsection \<open>Strings\<close>

text \<open>\<open>hay.includes(needle)\<close>\<close>

fun startsWith :: "string \<Rightarrow> string \<Rightarrow> bool" where
  "startsWith s [] = True"
| "startsWith [] (p # ps) = False"
| "startsWith (c # cs) (p # ps) = (c = p \<and> startsWith cs ps)"

fun includesStr :: "string \<Rightarrow> string \<Rightarrow> bool" where
  "includesStr [] needle = (needle = [])"
| "includesStr (c # cs) needle = (startsWith (c # cs) needle \<or> includesStr cs needle)"

text \<open>\<open>path.join('.')\<close>\<close>

fun join :: "string list \<Rightarrow> string \<Rightarrow> string" where
  "join [] sep = []"
| "join [x] sep = x"
| "join (x # y # ys) sep = x @ sep @ join (y # ys) sep"

text \<open>
  The decimal text of an integer \<open>i\<close> with \<open>\<bar>i\<bar> < 10\<^sup>2\<^sup>1\<close>, as a template literal prints it.
  From \<open>10\<^sup>2\<^sup>1\<close> on JavaScript prints a number in exponent notation (\<open>1e+21\<close>), which
  \<open>intText\<close> does not follow: it is used for status codes and for the number of a fuzz
  round only.
\<close>

definition digit :: "nat \<Rightarrow> char" where
  "digit d = char_of (48 + d)"

fun natText :: "nat \<Rightarrow> string" where
  "natText n = (if n < 10 then [digit n] else natText (n div 10) @ [digit (n mod 10)])"

declare natText.simps [simp del]

definition intText :: "int \<Rightarrow> string" where
  "intText i = (if i < 0 then CHR ''-'' # natText (nat (- i)) else natText (nat i))"

subsection \<open>Requests, test cases, responses, results\<close>

record request =
  "method" :: string
  url :: string
  headers :: "(string \<times> string) list"
  data :: json
  params :: "(string \<times> string) list"

record testCase =
  type :: string
  description :: string
  request :: request
  expectedStatus :: int
  expectedResult :: string

text \<open>
  \<open>error.message\<close>: a text that the network or the URL parser gives, or the message of one
  of the two \<open>TypeError\<close>s that the executor meets before any request is made.
\<close>

datatype errorMessage =
    Message string
  | CircularStructure
  | InvalidArgType

record response =
  status :: int
  error :: "errorMessage option"
  body :: json
  responseHeaders :: "(string \<times> string) list"

record result =
  testName :: string
  responseCode :: int
  expected :: int
  actual :: int
  passed :: bool
  resultError :: "errorMessage option"
  resultTestCase :: testCase

subsection \<open>The classifier\<close>

text \<open>
  \<open>isExpectedResult(actualStatus, expectedStatus, testType)\<close>: the type 'Positive' first,
  then every type that contains 'Negative', 'Security', 'Edge' or 'Fuzz', then the rest.
\<close>

definition isExpectedResult :: "int \<Rightarrow> int \<Rightarrow> string \<Rightarrow> bool" where
  "isExpectedResult actualStatus expStatus testType =
     (if testType = ''Positive''
      then actualStatus = expStatus \<or> actualStatus = 200 \<or> actualStatus = 201
      else if includesStr testType ''Negative'' \<or> includesStr testType ''Security''
              \<or> includesStr testType ''Edge'' \<or> includesStr testType ''Fuzz''
      then actualStatus \<ge> 400
      else actualStatus = expStatus)"

subsection \<open>Cloning and property access\<close>

text \<open>
  \<open>JSON.parse(JSON.stringify(v))\<close> for a value inside a structure: an entry of an object
  whose value is \<open>undefined\<close> is dropped, an \<open>undefined\<close> element of an array becomes
  \<open>null\<close>, everything else is copied. (At the top it is only ever applied to objects, and
  never to a value that holds the pool's object.)
\<close>

fun jsonClone :: "json \<Rightarrow> json" where
  "jsonClone (JArr xs) = JArr (map (\<lambda>x. if x = JUndefined then JNull else jsonClone x) xs)"
| "jsonClone (JObj kvs) =
     JObj (map (\<lambda>(k, v). (k, jsonClone v)) (filter (\<lambda>(k, v). v \<noteq> JUndefined) kvs))"
| "jsonClone v = v"

definition cloneRequest :: "request \<Rightarrow> request" where
  "cloneRequest r = r\<lparr>data := jsonClone (data r)\<rparr>"

text \<open>\<open>obj[key]\<close> on a plain object, \<open>Object.keys\<close>, and the entries of a value known to be an object.\<close>

definition getProp :: "('k \<times> json) list \<Rightarrow> 'k \<Rightarrow> json" where
  "getProp kvs k = (case map_of kvs k of None \<Rightarrow> JUndefined | Some v \<Rightarrow> v)"

definition keys :: "('k \<times> 'v) list \<Rightarrow> 'k list" where
  "keys kvs = map fst kvs"

fun entriesOf :: "json \<Rightarrow> entries" where
  "entriesOf (JObj kvs) = kvs"
| "entriesOf v = []"

subsection \<open>traverseObject and setNestedValue\<close>

text \<open>
  \<open>traverseObject(obj, callback, path)\<close> calls the callback on every entry, in order, and
  recurses into a value only if it is a plain object. No callback of the source changes the
  object that is traversed, so the traversal is the list of the calls \<open>(path, value)\<close>.
\<close>

fun traverseObject :: "entries \<Rightarrow> string list \<Rightarrow> (string list \<times> json) list" where
  "traverseObject [] path = []"
| "traverseObject ((k, v) # rest) path =
     (path @ [k], v)
     # (case v of JObj sub \<Rightarrow> traverseObject sub (path @ [k]) | _ \<Rightarrow> [])
     @ traverseObject rest path"

text \<open>
  Creating or writing an own property: \<open>obj[key] = value\<close> where no setter is involved. An
  existing entry keeps its place. A new entry whose name is an array index (the canonical
  decimal text of an integer below \<open>2\<^sup>3\<^sup>2 - 1\<close>) goes among the index names, in ascending
  order; any other new entry goes to the end.
\<close>

definition digitValue :: "char \<Rightarrow> int option" where
  "digitValue c = map_of (zip ''0123456789'' [0, 1, 2, 3, 4, 5, 6, 7, 8, 9]) c"

fun decimalValue :: "int \<Rightarrow> string \<Rightarrow> int option" where
  "decimalValue acc [] = Some acc"
| "decimalValue acc (c # cs) =
     (case digitValue c of None \<Rightarrow> None | Some d \<Rightarrow> decimalValue (10 * acc + d) cs)"

definition arrayIndex :: "string \<Rightarrow> int option" where
  "arrayIndex k =
     (if k = [] \<or> (hd k = CHR ''0'' \<and> tl k \<noteq> []) then None
      else (case decimalValue 0 k of
              None \<Rightarrow> None
            | Some n \<Rightarrow> if n < 4294967295 then Some n else None))"

fun insertIndexed :: "int \<Rightarrow> string \<Rightarrow> 'v \<Rightarrow> (string \<times> 'v) list \<Rightarrow> (string \<times> 'v) list" where
  "insertIndexed n k v [] = [(k, v)]"
| "insertIndexed n k v (kv # rest) =
     (case arrayIndex (fst kv) of
        None \<Rightarrow> (k, v) # kv # rest
      | Some n' \<Rightarrow> if n' < n then kv # insertIndexed n k v rest else (k, v) # kv # rest)"

definition setOwn :: "string \<Rightarrow> 'v \<Rightarrow> (string \<times> 'v) list \<Rightarrow> (string \<times> 'v) list" where
  "setOwn k v kvs =
     (if k \<in> set (keys kvs) then AList.update k v kvs
      else (case arrayIndex k of
              None \<Rightarrow> kvs @ [(k, v)]
            | Some n \<Rightarrow> insertIndexed n k v kvs))"

text \<open>
  \<open>current[key]\<close> on a plain object: the own entry if there is one; else the member that
  \<open>Object.prototype\<close> gives: one of its functions, or, for \<open>__proto__\<close>, \<open>Object.prototype\<close>
  itself; else nothing (\<open>undefined\<close>).
\<close>

definition objectPrototypeFunctions :: "string list" where
  "objectPrototypeFunctions =
     [''constructor'', ''__defineGetter__'', ''__defineSetter__'', ''hasOwnProperty'',
      ''__lookupGetter__'', ''__lookupSetter__'', ''isPrototypeOf'', ''propertyIsEnumerable'',
      ''toString'', ''valueOf'', ''toLocaleString'']"

definition objectPrototypeMembers :: "string list" where
  "objectPrototypeMembers = ''__proto__'' # objectPrototypeFunctions"

datatype member = Own json | InheritedFunction | ObjectPrototype | Absent

definition readMember :: "entries \<Rightarrow> string \<Rightarrow> member" where
  "readMember cur k =
     (case map_of cur k of
        Some v \<Rightarrow> Own v
      | None \<Rightarrow>
          if k \<in> set objectPrototypeFunctions then InheritedFunction
          else if k = ''__proto__'' then ObjectPrototype
          else Absent)"

text \<open>
  \<open>setNestedValue(obj, path, value)\<close> on a plain object \<open>obj\<close> (every caller passes a clone
  of the payload, which \<open>generateTestCases\<close> has checked to be one). The object is changed
  in place. How a call ends:
  \<^item> \<open>Returned obj d\<close>: it returns, \<open>obj\<close> is the object as it is then and \<open>d\<close> the diagnostic
    that was logged, if any;
  \<^item> \<open>Threw obj\<close>: it throws a \<open>TypeError\<close>;
  \<^item> \<open>WroteObjectPrototype obj\<close>: it has walked into \<open>Object.prototype\<close> and written a member
    of it (every object of the program inherits that member from then on);
  \<^item> \<open>SetPrototype obj\<close>: the last assignment went to the setter of \<open>__proto__\<close> with an
    object, an array or \<open>null\<close>, which replaces the prototype of the object reached (or
    throws, if that object is the new prototype itself);
  \<^item> \<open>EnteredPool rest\<close>: the walk has reached the pool's object with the segments \<open>rest\<close>
    still to go; up to there it has followed existing objects and changed nothing.
\<close>

datatype diagnostic = IntermediateNotObject "string list"

datatype outcome =
    Returned entries "diagnostic option"
  | Threw entries
  | WroteObjectPrototype entries
  | SetPrototype entries
  | EnteredPool "string list"

text \<open>The change that a call makes below a key, seen from the object that holds the key.\<close>

fun inside :: "(entries \<Rightarrow> entries) \<Rightarrow> outcome \<Rightarrow> outcome" where
  "inside f (Returned sub d) = Returned (f sub) d"
| "inside f (Threw sub) = Threw (f sub)"
| "inside f (WroteObjectPrototype sub) = WroteObjectPrototype (f sub)"
| "inside f (SetPrototype sub) = SetPrototype (f sub)"
| "inside f (EnteredPool rest) = EnteredPool rest"

text \<open>
  \<open>current[finalKey] = value\<close>. An own entry is written. Without an own entry the name
  \<open>__proto__\<close> is the setter of \<open>Object.prototype\<close>, which ignores a value that is neither an
  object nor \<open>null\<close>; any other name becomes a new own entry (also the name of an inherited
  function, which the entry then shadows).
\<close>

definition assign :: "string \<Rightarrow> json \<Rightarrow> entries \<Rightarrow> outcome" where
  "assign k v cur =
     (if k \<notin> set (keys cur) \<and> k = ''__proto__''
      then (if isObjectLike v \<or> v = JNull then SetPrototype cur else Returned cur None)
      else Returned (setOwn k v cur) None)"

text \<open>
  The rest of the walk once \<open>current\<close> is \<open>Object.prototype\<close>, which has the members named
  in \<open>objectPrototypeMembers\<close> and whose own prototype is \<open>null\<close> and cannot be replaced.
  \<open>k\<close> is the next segment, \<open>ks\<close> the segments after it.
  \<^item> \<open>k\<close> is the last segment: \<open>Object.prototype[k] = value\<close>. For \<open>__proto__\<close> the setter
    throws on an object, does nothing on \<open>null\<close> (the prototype it has) and ignores the rest.
  \<^item> \<open>k\<close> is not the last: \<open>__proto__\<close> reads \<open>null\<close>, so \<open>{}\<close> is assigned to it and the setter
    throws; a function logs and returns; any other name reads \<open>undefined\<close>, so \<open>{}\<close> is
    written into \<open>Object.prototype\<close>.
\<close>

definition inObjectPrototype :: "entries \<Rightarrow> string list \<Rightarrow> string \<Rightarrow> string list \<Rightarrow> json \<Rightarrow> outcome" where
  "inObjectPrototype cur full k ks v =
     (if ks = []
      then (if k = ''__proto__''
            then (if isObjectLike v then Threw cur else Returned cur None)
            else WroteObjectPrototype cur)
      else (if k = ''__proto__'' then Threw cur
            else if k \<in> set objectPrototypeFunctions
            then Returned cur (Some (IntermediateNotObject full))
            else WroteObjectPrototype cur))"

text \<open>
  The loop runs over all segments but the last; \<open>full\<close> is the whole path, for the message.
  \<^item> A segment that reads \<open>undefined\<close> or \<open>null\<close> is overwritten with a new empty object and
    the walk goes on inside it.
  \<^item> A segment that reads a plain object is followed.
  \<^item> A segment that reads anything else (a string, a number, a boolean, an array, an
    inherited function) logs and returns.
  \<^item> The last segment is assigned: the test that \<open>current\<close> is a plain object, which guards
    the assignment, holds whenever the loop ends, since \<open>obj\<close> is one.
  With the empty path \<open>path[path.length - 1]\<close> is \<open>undefined\<close>, and the assignment writes the
  property named \<open>undefined\<close>.
\<close>

fun setNested :: "entries \<Rightarrow> string list \<Rightarrow> string list \<Rightarrow> json \<Rightarrow> outcome" where
  "setNested cur full [] v = assign ''undefined'' v cur"
| "setNested cur full [k] v = assign k v cur"
| "setNested cur full (k # k' # ks) v =
     (case readMember cur k of
        Absent \<Rightarrow>
          inside (\<lambda>sub. setOwn k (JObj sub) cur) (setNested [] full (k' # ks) v)
      | InheritedFunction \<Rightarrow> Returned cur (Some (IntermediateNotObject full))
      | ObjectPrototype \<Rightarrow> inObjectPrototype cur full k' ks v
      | Own w \<Rightarrow>
          (case w of
             JUndefined \<Rightarrow>
               inside (\<lambda>sub. setOwn k (JObj sub) cur) (setNested [] full (k' # ks) v)
           | JNull \<Rightarrow>
               inside (\<lambda>sub. setOwn k (JObj sub) cur) (setNested [] full (k' # ks) v)
           | JObj kvs \<Rightarrow>
               inside (\<lambda>sub. AList.update k (JObj sub) cur) (setNested kvs full (k' # ks) v)
           | JPool \<Rightarrow> EnteredPool (k' # ks)
           | _ \<Rightarrow> Returned cur (Some (IntermediateNotObject full))))"

definition setNestedValue :: "entries \<Rightarrow> string list \<Rightarrow> json \<Rightarrow> outcome" where
  "setNestedValue obj path v = setNested obj path path v"

text \<open>
  The object \<open>cur\<close> that a call was made on, after the call: what the call has changed stays,
  however it ended. (A call that has entered the pool's object has changed nothing in \<open>cur\<close>.)
\<close>

definition entriesAfter :: "entries \<Rightarrow> outcome \<Rightarrow> entries" where
  "entriesAfter cur r =
     (case r of
        Returned obj diag \<Rightarrow> obj
      | Threw obj \<Rightarrow> obj
      | WroteObjectPrototype obj \<Rightarrow> obj
      | SetPrototype obj \<Rightarrow> obj
      | EnteredPool rest \<Rightarrow> cur)"

subsection \<open>Constants of the generators\<close>

definition dq :: char where "dq = CHR 0x22"
definition sq :: char where "sq = CHR 0x27"
definition backslash :: char where "backslash = CHR 0x5C"

text \<open>The attack table of \<open>generateSecurityTests\<close>: name and payload.\<close>

definition attacks :: "(string \<times> string) list" where
  "attacks =
     [(''XSS'', ''<script>alert('' @ [dq] @ ''xss'' @ [dq] @ '')</script>''),
      (''SQL'', [sq] @ ''; DROP TABLE users; --''),
      (''NoSQL'', ''{'' @ [dq] @ ''$gt'' @ [dq] @ '': '' @ [dq, dq] @ ''}''),
      (''LDAP'', ''*)(uid=*))(|(uid=*''),
      (''Command'', ''; rm -rf /''),
      (''Path'', ''../../../etc/passwd'')]"

definition longString :: string where
  "longString = replicate 1000 CHR ''a''"

definition specialChars :: string where
  "specialChars = ''!@#$%^&*()_+{}[]|'' @ [backslash] @ '':'' @ [dq] @ '';'' @ [sq] @ ''<>?,.`~''"

definition unicodeSample :: string where
  "unicodeSample =
     [CHR 0xF0, CHR 0x9F, CHR 0x9A, CHR 0x80, CHR 0xF0, CHR 0x9F, CHR 0x92, CHR 0xBB,
      CHR 0xF0, CHR 0x9F, CHR 0x94, CHR 0xA5, CHR 0xF0, CHR 0x9F, CHR 0x8E, CHR 0xAF,
      CHR 0xF0, CHR 0x9F, CHR 0x93, CHR 0x8A, CHR 0xE2, CHR 0x9C, CHR 0x85,
      CHR 0xE2, CHR 0x9D, CHR 0x8C, CHR 0xF0, CHR 0x9F, CHR 0xA7, CHR 0xAA]"

definition MAX_SAFE_INTEGER :: rat where
  "MAX_SAFE_INTEGER = 9007199254740991"

text \<open>
  The pool of \<open>generateFuzzTests\<close>, its third value the one object \<open>{}\<close> held by reference;
  an index outside an array reads \<open>undefined\<close>.
\<close>

definition fuzzValues :: "json list" where
  "fuzzValues =
     [JUndefined, JArr [], JPool, JStr ''null'', JStr ''undefined'', JStr ''[]'',
      JStr ''{}'', JStr ''true'', JStr ''false'']"

definition arrayAt :: "json list \<Rightarrow> int \<Rightarrow> json" where
  "arrayAt xs i = (if 0 \<le> i \<and> i < int (length xs) then xs ! nat i else JUndefined)"

definition getStatusText :: "int \<Rightarrow> string" where
  "getStatusText st =
     (case map_of
        [(200, ''OK''), (201, ''Created''), (202, ''Accepted''), (204, ''No Content''),
         (400, ''Bad Request''), (401, ''Unauthorized''), (403, ''Forbidden''),
         (404, ''Not Found''), (409, ''Conflict''), (415, ''Unsupported Media Type''),
         (422, ''Unprocessable Entity''), (429, ''Too Many Requests''),
         (500, ''Internal Server Error''), (502, ''Bad Gateway''),
         (503, ''Service Unavailable'')] st of
        None \<Rightarrow> ''Unknown'' | Some t \<Rightarrow> t)"

subsection \<open>The generators\<close>

text \<open>
  Every generator reads \<open>baseRequest.data\<close>, a plain object, and pushes test cases on the
  shared list; the model returns the cases pushed, in order. A mutated payload is a fresh
  clone of the data, changed by \<open>delete\<close> or by \<open>setNestedValue\<close>, and replaces the data of
  a copy of the base request: \<open>{ ...baseRequest, data: modifiedData }\<close>.

  The callbacks that call \<open>setNestedValue\<close> do so inside a \<open>try\<close>: when the call throws, the
  case is not pushed and the rest of the \<open>try\<close> block is skipped. \<open>mutated\<close> is the clone after
  the call, \<open>None\<close> if the call threw (a clone holds no reference to the pool's object, so
  the call does not end there).
\<close>

definition negativeCase :: "request \<Rightarrow> string \<Rightarrow> string \<Rightarrow> entries \<Rightarrow> testCase" where
  "negativeCase base ty descr modifiedData =
     \<lparr> type = ty, description = descr, request = base\<lparr>data := JObj modifiedData\<rparr>,
       expectedStatus = 400, expectedResult = ''400 Bad Request'' \<rparr>"

definition mutated :: "json \<Rightarrow> string list \<Rightarrow> json \<Rightarrow> entries option" where
  "mutated d path v =
     (case setNestedValue (entriesOf (jsonClone d)) path v of
        Threw obj \<Rightarrow> None
      | r \<Rightarrow> Some (entriesAfter (entriesOf (jsonClone d)) r))"

text \<open>One step of a \<open>try\<close> block: set the value and push the case.\<close>

definition attempt :: "request \<Rightarrow> string \<Rightarrow> string \<Rightarrow> string list \<Rightarrow> json \<Rightarrow> testCase option" where
  "attempt base ty descr path v = map_option (negativeCase base ty descr) (mutated (data base) path v)"

text \<open>The cases pushed by the steps of one \<open>try\<close> block: those before the first that throws.\<close>

fun untilThrow :: "'a option list \<Rightarrow> 'a list" where
  "untilThrow [] = []"
| "untilThrow (None # rest) = []"
| "untilThrow (Some x # rest) = x # untilThrow rest"

text \<open>\<open>delete modifiedData[field][nestedField]\<close>\<close>

definition deleteNested :: "entries \<Rightarrow> string \<Rightarrow> string \<Rightarrow> entries" where
  "deleteNested kvs field nestedField =
     AList.map_entry field (\<lambda>v. JObj (AList.delete nestedField (entriesOf v))) kvs"

definition generateMissingFieldTests :: "request \<Rightarrow> testCase list" where
  "generateMissingFieldTests base =
     (let d = data base in
      map (\<lambda>field.
             negativeCase base ''Negative - Missing'' (''Missing '' @ field @ '' field'')
               (AList.delete field (entriesOf (jsonClone d))))
          (keys (entriesOf d))
      @ concat (map (\<lambda>field.
             if isPlainObject (getProp (entriesOf d) field)
             then map (\<lambda>nestedField.
                    negativeCase base ''Negative - Missing''
                      (''Missing '' @ field @ ''.'' @ nestedField @ '' field'')
                      (deleteNested (entriesOf (jsonClone d)) field nestedField))
                    (keys (entriesOf (getProp (entriesOf d) field)))
             else [])
          (keys (entriesOf d))))"

fun invalidTypeVisit :: "request \<Rightarrow> string list \<times> json \<Rightarrow> testCase list" where
  "invalidTypeVisit base (path, JStr s) =
     untilThrow
       [attempt base ''Negative - Type''
          (''Wrong type for '' @ join path ''.'' @ '' (number instead of string)'')
          path (JNum 12345)]"
| "invalidTypeVisit base (path, JNum n) =
     untilThrow
       [attempt base ''Negative - Type''
          (''Wrong type for '' @ join path ''.'' @ '' (string instead of number)'')
          path (JStr ''not_a_number'')]"
| "invalidTypeVisit base (path, v) = []"

definition generateInvalidTypeTests :: "request \<Rightarrow> testCase list" where
  "generateInvalidTypeTests base =
     concat (map (invalidTypeVisit base) (traverseObject (entriesOf (data base)) []))"

fun isString :: "json \<Rightarrow> bool" where
  "isString (JStr s) = True"
| "isString v = False"

fun isNumber :: "json \<Rightarrow> bool" where
  "isNumber (JNum n) = True"
| "isNumber v = False"

definition nullValueVisit :: "request \<Rightarrow> string list \<times> json \<Rightarrow> testCase list" where
  "nullValueVisit base pv =
     (case pv of (path, v) \<Rightarrow>
        untilThrow
          (attempt base ''Negative - Null'' (''Null value for '' @ join path ''.'') path JNull
           # (if isString v
              then [attempt base ''Negative - Empty'' (''Empty string for '' @ join path ''.'')
                      path (JStr [])]
              else [])))"

definition generateNullValueTests :: "request \<Rightarrow> testCase list" where
  "generateNullValueTests base =
     concat (map (nullValueVisit base) (traverseObject (entriesOf (data base)) []))"

text \<open>In \<open>generateSecurityTests\<close> every attack has a \<open>try\<close> block of its own.\<close>

definition securityVisit :: "request \<Rightarrow> string list \<times> json \<Rightarrow> testCase list" where
  "securityVisit base pv =
     (case pv of (path, v) \<Rightarrow>
        if isString v
        then concat (map (\<lambda>(name, payload).
               untilThrow
                 [attempt base (''Security - '' @ name)
                    (name @ '' injection in '' @ join path ''.'')
                    path (JStr payload)])
             attacks)
        else [])"

definition generateSecurityTests :: "request \<Rightarrow> testCase list" where
  "generateSecurityTests base =
     concat (map (securityVisit base) (traverseObject (entriesOf (data base)) []))"

definition edgeCaseVisit :: "request \<Rightarrow> string list \<times> json \<Rightarrow> testCase list" where
  "edgeCaseVisit base pv =
     (case pv of (path, v) \<Rightarrow>
        untilThrow
          ((if isString v
            then [attempt base ''Edge - Long'' (''Very long string for '' @ join path ''.'')
                    path (JStr longString),
                  attempt base ''Edge - Special'' (''Special characters in '' @ join path ''.'')
                    path (JStr specialChars),
                  attempt base ''Edge - Unicode'' (''Unicode characters in '' @ join path ''.'')
                    path (JStr unicodeSample)]
            else [])
           @ (if isNumber v
              then [attempt base ''Edge - Large'' (''Maximum safe integer for '' @ join path ''.'')
                      path (JNum MAX_SAFE_INTEGER),
                    attempt base ''Edge - Negative''
                      (''Large negative number for '' @ join path ''.'')
                      path (JNum (- 999999))]
              else [])))"

definition generateEdgeCaseTests :: "request \<Rightarrow> testCase list" where
  "generateEdgeCaseTests base =
     concat (map (edgeCaseVisit base) (traverseObject (entriesOf (data base)) []))"

text \<open>
  \<open>generateFuzzTests\<close>: five rounds. A round clones the data and walks the original data;
  at every visit it draws a number and, if it is below 0.4, draws a second one to pick
  \<open>fuzzValues[Math.floor(r * fuzzValues.length)]\<close> and sets it at the path in the clone.
  The draws are taken from the stream in the order of the calls of \<open>Math.random\<close>, and the
  product is the exact one.

  The pool's \<open>{}\<close> is one object for the whole call. A clone that has received it holds a
  reference to it, and a later path of the same round that leads through that reference
  goes on inside the pool's object: \<open>inPool\<close> is the walk there, on the entries of the pool's
  object, started again whenever it comes back to the object itself. A \<open>TypeError\<close> of
  \<open>setNestedValue\<close> is caught inside the visit; what the call has changed before it stays.
  The generator's state is the clone, the entries of the pool's object and the stream.
\<close>

function inPool :: "entries \<Rightarrow> string list \<Rightarrow> string list \<Rightarrow> json \<Rightarrow> entries" where
  "inPool pool full rest v =
     (case setNested pool full rest v of
        EnteredPool rest' \<Rightarrow> inPool pool full rest' v
      | r \<Rightarrow> entriesAfter pool r)"
  by pat_completeness auto

termination inPool
proof (relation "measure (\<lambda>(pool, full, rest, v). length rest)")
  have inside_pool: "\<And>f r rest. inside f r = EnteredPool rest \<Longrightarrow> r = EnteredPool rest"
    by (case_tac r) simp_all
  have shorter: "setNested cur full p v = EnteredPool r \<Longrightarrow> length r < length p"
    for cur full p v r
  proof (induction p arbitrary: cur r)
    case Nil
    then show ?case by (simp add: assign_def split: if_splits)
  next
    case (Cons k p')
    show ?case
    proof (cases p')
      case Nil
      with Cons.prems show ?thesis by (simp add: assign_def split: if_splits)
    next
      case (Cons k' ks)
      have IH: "setNested c full (k' # ks) v = EnteredPool r' \<Longrightarrow> length r' < Suc (Suc (length ks))"
        for c r'
        using Cons.IH [of c r'] Cons by simp
      show ?thesis
      proof (cases "readMember cur k")
        case (Own w)
        with Cons.prems Cons show ?thesis
          by (cases w) (auto dest!: inside_pool IH)
      next
        case InheritedFunction
        with Cons.prems Cons show ?thesis by simp
      next
        case ObjectPrototype
        with Cons.prems Cons show ?thesis by (simp add: inObjectPrototype_def split: if_splits)
      next
        case Absent
        with Cons.prems Cons show ?thesis by (auto dest!: inside_pool IH)
      qed
    qed
  qed
  show "wf (measure (\<lambda>(pool, full, rest, v). length rest))" by simp
  show "\<And>pool full rest v x5.
          setNested pool full rest v = EnteredPool x5 \<Longrightarrow>
          ((pool, full, x5, v), (pool, full, rest, v)) \<in> measure (\<lambda>(pool, full, rest, v). length rest)"
    by (simp add: shorter)
qed

declare inPool.simps [simp del]

definition setShared :: "entries \<Rightarrow> entries \<Rightarrow> string list \<Rightarrow> json \<Rightarrow> entries \<times> entries" where
  "setShared modifiedData pool path v =
     (case setNestedValue modifiedData path v of
        EnteredPool rest \<Rightarrow> (modifiedData, inPool pool path rest v)
      | r \<Rightarrow> (entriesAfter modifiedData r, pool))"

definition fuzzVisit ::
  "entries \<times> entries \<times> real stream \<Rightarrow> string list \<times> json \<Rightarrow> entries \<times> entries \<times> real stream" where
  "fuzzVisit st pv =
     (case st of (modifiedData, pool, rnd) \<Rightarrow>
      case pv of (path, v) \<Rightarrow>
        if shd rnd < 4 / 10
        then (let r = shd (stl rnd);
                  fuzzValue = arrayAt fuzzValues \<lfloor>r * real (length fuzzValues)\<rfloor>;
                  (modifiedData', pool') = setShared modifiedData pool path fuzzValue
              in (modifiedData', pool', stl (stl rnd)))
        else (modifiedData, pool, stl rnd))"

definition fuzzRound ::
  "request \<Rightarrow> nat \<Rightarrow> entries \<Rightarrow> real stream \<Rightarrow> testCase \<times> entries \<times> real stream" where
  "fuzzRound base i pool rnd =
     (let d = data base;
          (modifiedData, pool', rnd') =
             foldl fuzzVisit (entriesOf (jsonClone d), pool, rnd) (traverseObject (entriesOf d) [])
      in (\<lparr> type = ''Fuzz'', description = ''Random fuzz test #'' @ natText (i + 1),
             request = base\<lparr>data := JObj modifiedData\<rparr>,
             expectedStatus = 400, expectedResult = ''Varies'' \<rparr>, pool', rnd'))"

fun fuzzLoop ::
  "request \<Rightarrow> nat list \<Rightarrow> entries \<Rightarrow> real stream \<Rightarrow> testCase list \<times> entries \<times> real stream" where
  "fuzzLoop base [] pool rnd = ([], pool, rnd)"
| "fuzzLoop base (i # rest) pool rnd =
     (let (tc, pool', rnd') = fuzzRound base i pool rnd;
          (tcs, pool'', rnd'') = fuzzLoop base rest pool' rnd'
      in (tc # tcs, pool'', rnd''))"

text \<open>
  The payloads as they are when the generator returns: every reference to the pool's object
  is written out with the entries that the object has at the end of the call. A reference
  among those entries stays: it leads back to the object. (An array holds no reference: the
  walk of \<open>setNestedValue\<close> never enters an array.)
\<close>

fun writtenOut :: "entries \<Rightarrow> json \<Rightarrow> json" where
  "writtenOut pool JPool = JObj pool"
| "writtenOut pool (JObj kvs) = JObj (map (\<lambda>kv. (fst kv, writtenOut pool (snd kv))) kvs)"
| "writtenOut pool v = v"

definition finished :: "entries \<Rightarrow> testCase \<Rightarrow> testCase" where
  "finished pool tc = tc\<lparr>request := (request tc)\<lparr>data := writtenOut pool (data (request tc))\<rparr>\<rparr>"

definition generateFuzzTests :: "request \<Rightarrow> real stream \<Rightarrow> testCase list \<times> real stream" where
  "generateFuzzTests base rnd =
     (let (tcs, pool, rnd') = fuzzLoop base [0, 1, 2, 3, 4] [] rnd
      in (map (finished pool) tcs, rnd'))"

text \<open>
  \<open>generateHeaderTests\<close>: guarded by the truthiness of \<open>baseRequest.headers['Content-Type']\<close>,
  a string: it must be there and not be empty.
\<close>

definition headerCase :: "string \<Rightarrow> request \<Rightarrow> testCase" where
  "headerCase descr req =
     \<lparr> type = ''Negative - Header'', description = descr, request = req,
       expectedStatus = 415, expectedResult = ''415 Unsupported Media Type'' \<rparr>"

definition generateHeaderTests :: "request \<Rightarrow> testCase list" where
  "generateHeaderTests base =
     (case map_of (headers base) ''Content-Type'' of
        None \<Rightarrow> []
      | Some v \<Rightarrow>
          if v = [] then []
          else
            (let noContentType = cloneRequest base;
                 wrongContentType = cloneRequest base
             in [headerCase ''Missing Content-Type header''
                   (noContentType\<lparr>headers := AList.delete ''Content-Type'' (headers noContentType)\<rparr>),
                 headerCase ''Wrong Content-Type (text/plain)''
                   (wrongContentType\<lparr>headers :=
                      AList.update ''Content-Type'' ''text/plain'' (headers wrongContentType)\<rparr>)]))"

text \<open>
  \<open>generateTestCases(parsedCurl, schema, expectedStatus)\<close>; the parameter \<open>schema\<close> is never
  read. The payload generators run if the data is a plain object, the header generator if
  the request has any header at all.
\<close>

definition positiveCase :: "request \<Rightarrow> int \<Rightarrow> testCase" where
  "positiveCase base expStatus =
     \<lparr> type = ''Positive'', description = ''Valid input data'', request = cloneRequest base,
       expectedStatus = expStatus,
       expectedResult = intText expStatus @ '' '' @ getStatusText expStatus \<rparr>"

definition generateTestCases :: "real stream \<Rightarrow> request \<Rightarrow> int \<Rightarrow> testCase list" where
  "generateTestCases rnd parsedCurl expStatus =
     (let baseRequest = cloneRequest parsedCurl in
      [positiveCase baseRequest expStatus]
      @ (if isPlainObject (data baseRequest)
         then generateMissingFieldTests baseRequest
              @ generateInvalidTypeTests baseRequest
              @ generateNullValueTests baseRequest
              @ generateSecurityTests baseRequest
              @ generateEdgeCaseTests baseRequest
              @ fst (generateFuzzTests baseRequest rnd)
         else [])
      @ (if length (keys (headers baseRequest)) > 0
         then generateHeaderTests baseRequest
         else []))"

subsection \<open>The executor\<close>

text \<open>
  One call of \<open>executeRequest\<close>. The statements of the \<open>try\<close> block run in this order:
  \<^item> \<open>new URL(request.url)\<close>, which throws on a text that is no URL;
  \<^item> if the data is truthy, \<open>JSON.stringify\<close> of an object or array, which throws on a
    circular payload, and \<open>Buffer.byteLength\<close>, which throws on a number or a boolean (data
    that is neither object nor string is passed to it as it is);
  \<^item> \<open>lib.request\<close>, which throws on options that it refuses.
  A throw resolves the promise with status 0 and the message. Once the request is made,
  the promise is resolved by the first of: the response ends (\<open>end\<close> of the response), the
  request emits \<open>error\<close>, the request emits \<open>timeout\<close> (after 15 seconds without traffic).
  There is no handler for a response that begins and is then lost (the connection is closed
  before the body is complete): the response emits \<open>aborted\<close> and \<open>close\<close>, the request no
  \<open>error\<close> any more, and the promise is never resolved.

  What happens outside the program is the parameter: the network is a function of the
  number of the call and the request. The executor appends the request to the list of the
  calls made; the result is \<open>None\<close> when the promise is never resolved. No path issues a
  second request.
\<close>

datatype wireEvent =
    InvalidUrl string
  | RequestThrew string
  | Responded int json "(string \<times> string) list"
  | ErrorEvent string
  | TimeoutEvent
  | ResponseLost

type_synonym network = "nat \<Rightarrow> request \<Rightarrow> wireEvent"

definition errorResponse :: "errorMessage \<Rightarrow> response" where
  "errorResponse msg = \<lparr> status = 0, error = Some msg, body = JNull, responseHeaders = [] \<rparr>"

text \<open>The throw of the second step, if any.\<close>

definition postDataFailure :: "json \<Rightarrow> errorMessage option" where
  "postDataFailure d =
     (if \<not> truthy d then None
      else if isObjectLike d then (if circular d then Some CircularStructure else None)
      else (case d of JStr s \<Rightarrow> None | _ \<Rightarrow> Some InvalidArgType))"

text \<open>What the promise is resolved with, by the event.\<close>

definition resolved :: "wireEvent \<Rightarrow> response option" where
  "resolved ev =
     (case ev of
        InvalidUrl msg \<Rightarrow> Some (errorResponse (Message msg))
      | RequestThrew msg \<Rightarrow> Some (errorResponse (Message msg))
      | Responded st b hs \<Rightarrow> Some \<lparr> status = st, error = None, body = b, responseHeaders = hs \<rparr>
      | ErrorEvent msg \<Rightarrow> Some (errorResponse (Message msg))
      | TimeoutEvent \<Rightarrow> Some (errorResponse (Message ''Request timeout''))
      | ResponseLost \<Rightarrow> None)"

fun isInvalidUrl :: "wireEvent \<Rightarrow> bool" where
  "isInvalidUrl (InvalidUrl msg) = True"
| "isInvalidUrl ev = False"

definition executeRequest :: "network \<Rightarrow> request list \<Rightarrow> request \<Rightarrow> response option \<times> request list" where
  "executeRequest net calls req =
     (let ev = net (length calls) req
      in (if isInvalidUrl ev then resolved ev
          else (case postDataFailure (data req) of
                  Some e \<Rightarrow> Some (errorResponse e)
                | None \<Rightarrow> resolved ev),
          calls @ [req]))"

subsection \<open>Parsing the curl command\<close>

text \<open>
  The regular expressions of \<open>parseCurl\<close> are written out as matchers. A matcher is tried
  at a position, on the text from there on; \<open>firstMatch\<close> tries the positions from left to
  right, as \<open>String.prototype.match\<close> does. Each expression of the source is a literal
  followed by runs of a character class, each run ended by a character outside its class,
  so the longest run is the only one that can match and no backtracking is lost.
  \<open>\s\<close> is the white space of the 8-bit range, \<open>\w\<close> is \<open>[A-Za-z0-9_]\<close>.
\<close>

definition isSpace :: "char \<Rightarrow> bool" where
  "isSpace c = (c \<in> set [CHR 0x09, CHR 0x0A, CHR 0x0B, CHR 0x0C, CHR 0x0D, CHR 0x20, CHR 0xA0])"

definition lowerCaseLetters :: string where
  "lowerCaseLetters = ''abcdefghijklmnopqrstuvwxyz''"

definition upperCaseLetters :: string where
  "upperCaseLetters = ''ABCDEFGHIJKLMNOPQRSTUVWXYZ''"

definition isWordChar :: "char \<Rightarrow> bool" where
  "isWordChar c = (c \<in> set (lowerCaseLetters @ upperCaseLetters @ ''0123456789_''))"

definition isQuote :: "char \<Rightarrow> bool" where
  "isQuote c = (c = sq \<or> c = dq)"

definition toUpperChar :: "char \<Rightarrow> char" where
  "toUpperChar c =
     (case map_of (zip lowerCaseLetters upperCaseLetters) c of Some u \<Rightarrow> u | None \<Rightarrow> c)"

definition toUpperCase :: "string \<Rightarrow> string" where
  "toUpperCase s = map toUpperChar s"

definition trim :: "string \<Rightarrow> string" where
  "trim s = rev (dropWhile isSpace (rev (dropWhile isSpace s)))"

fun firstMatch :: "(string \<Rightarrow> 'a option) \<Rightarrow> string \<Rightarrow> 'a option" where
  "firstMatch m [] = m []"
| "firstMatch m (c # cs) = (case m (c # cs) of Some r \<Rightarrow> Some r | None \<Rightarrow> firstMatch m cs)"

text \<open>A literal at the head of the text; with the flag \<open>i\<close>, letters match in either case.\<close>

definition lit :: "string \<Rightarrow> string \<Rightarrow> string option" where
  "lit p s = (if startsWith s p then Some (drop (length p) s) else None)"

definition litI :: "string \<Rightarrow> string \<Rightarrow> string option" where
  "litI p s =
     (if length p \<le> length s \<and> toUpperCase (take (length p) s) = toUpperCase p
      then Some (drop (length p) s) else None)"

text \<open>\<open>cls+\<close>: the longest run of the class, which must not be empty; the run and the rest.\<close>

definition run1 :: "(char \<Rightarrow> bool) \<Rightarrow> string \<Rightarrow> (string \<times> string) option" where
  "run1 cls s =
     (if takeWhile cls s = [] then None else Some (takeWhile cls s, dropWhile cls s))"

text \<open>One character of a class.\<close>

fun one :: "(char \<Rightarrow> bool) \<Rightarrow> string \<Rightarrow> string option" where
  "one cls [] = None"
| "one cls (c # cs) = (if cls c then Some cs else None)"

text \<open>\<open>https?:\/\/\<close>: the scheme matched and the rest.\<close>

definition scheme :: "string \<Rightarrow> (string \<times> string) option" where
  "scheme s =
     (case lit ''https://'' s of
        Some r \<Rightarrow> Some (''https://'', r)
      | None \<Rightarrow> (case lit ''http://'' s of Some r \<Rightarrow> Some (''http://'', r) | None \<Rightarrow> None))"

text \<open>\<open>q(https?:\/\/[^q]+)q\<close> for a quote character \<open>q\<close>: the first two patterns of the URL.\<close>

definition quotedUrl :: "char \<Rightarrow> string \<Rightarrow> string option" where
  "quotedUrl q s =
     (case one (\<lambda>c. c = q) s of None \<Rightarrow> None | Some s1 \<Rightarrow>
     (case scheme s1 of None \<Rightarrow> None | Some (sch, s2) \<Rightarrow>
     (case run1 (\<lambda>c. c \<noteq> q) s2 of None \<Rightarrow> None | Some (u, s3) \<Rightarrow>
     (case one (\<lambda>c. c = q) s3 of None \<Rightarrow> None | Some s4 \<Rightarrow> Some (sch @ u)))))"

text \<open>\<open>\s+['"]([^'"]+)['"]\<close>: the quoted argument of a flag; the capture and the rest.\<close>

definition quotedArg :: "string \<Rightarrow> (string \<times> string) option" where
  "quotedArg s =
     (case run1 isSpace s of None \<Rightarrow> None | Some (ws, s1) \<Rightarrow>
     (case one isQuote s1 of None \<Rightarrow> None | Some s2 \<Rightarrow>
     (case run1 (\<lambda>c. \<not> isQuote c) s2 of None \<Rightarrow> None | Some (a, s3) \<Rightarrow>
     (case one isQuote s3 of None \<Rightarrow> None | Some s4 \<Rightarrow> Some (a, s4)))))"

text \<open>\<open>--location\s+['"]([^'"]+)['"]\<close> and \<open>curl\s+['"]([^'"]+)['"]\<close>\<close>

definition flagUrl :: "string \<Rightarrow> string \<Rightarrow> string option" where
  "flagUrl flag s =
     (case lit flag s of None \<Rightarrow> None | Some s1 \<Rightarrow> map_option fst (quotedArg s1))"

text \<open>\<open>(https?:\/\/[^\s'"]+)\<close>\<close>

definition bareUrl :: "string \<Rightarrow> string option" where
  "bareUrl s =
     (case scheme s of None \<Rightarrow> None | Some (sch, s1) \<Rightarrow>
     (case run1 (\<lambda>c. \<not> isSpace c \<and> \<not> isQuote c) s1 of None \<Rightarrow> None
      | Some (u, s2) \<Rightarrow> Some (sch @ u)))"

definition urlPatterns :: "(string \<Rightarrow> string option) list" where
  "urlPatterns =
     [firstMatch (quotedUrl sq), firstMatch (quotedUrl dq),
      firstMatch (flagUrl ''--location''), firstMatch (flagUrl ''curl''),
      firstMatch bareUrl]"

text \<open>The loop over the patterns: the first that matches gives the URL, else it stays empty.\<close>

fun findUrl :: "(string \<Rightarrow> string option) list \<Rightarrow> string \<Rightarrow> string" where
  "findUrl [] cmd = []"
| "findUrl (p # ps) cmd = (case p cmd of Some u \<Rightarrow> u | None \<Rightarrow> findUrl ps cmd)"

text \<open>
  \<open>/-X\s+(\w+)|--request\s+(\w+)/i\<close>: at a position the first alternative is tried before
  the second; the capture is the word.
\<close>

definition flagWord :: "string \<Rightarrow> string \<Rightarrow> string option" where
  "flagWord flag s =
     (case litI flag s of None \<Rightarrow> None | Some s1 \<Rightarrow>
     (case run1 isSpace s1 of None \<Rightarrow> None | Some (ws, s2) \<Rightarrow>
      map_option fst (run1 isWordChar s2)))"

definition methodAt :: "string \<Rightarrow> string option" where
  "methodAt s = (case flagWord ''-X'' s of Some w \<Rightarrow> Some w | None \<Rightarrow> flagWord ''--request'' s)"

definition methodMatch :: "string \<Rightarrow> string option" where
  "methodMatch cmd = firstMatch methodAt cmd"

text \<open>
  \<open>/(?:--header|-H)\s+['"]([^'"]+)['"]/g\<close> with the \<open>exec\<close> loop: every match from left to
  right, the next search starting where the last match ended. A matcher for the loop yields
  the capture and the number of characters matched; \<open>skip\<close> counts the characters of the
  last match that are still to be passed.
\<close>

definition headerAt :: "string \<Rightarrow> (string \<times> nat) option" where
  "headerAt s =
     (case (case lit ''--header'' s of Some r \<Rightarrow> Some r | None \<Rightarrow> lit ''-H'' s) of
        None \<Rightarrow> None
      | Some s1 \<Rightarrow> map_option (\<lambda>(h, rest). (h, length s - length rest)) (quotedArg s1))"

fun allMatches :: "(string \<Rightarrow> ('a \<times> nat) option) \<Rightarrow> nat \<Rightarrow> string \<Rightarrow> 'a list" where
  "allMatches m skip [] = []"
| "allMatches m (Suc n) (c # cs) = allMatches m n cs"
| "allMatches m 0 (c # cs) =
     (case m (c # cs) of
        Some (x, len) \<Rightarrow> x # allMatches m (len - 1) cs
      | None \<Rightarrow> allMatches m 0 cs)"

text \<open>
  \<open>header.indexOf(':')\<close>, and the body of the header loop. \<open>parsed.headers[key] = value\<close>
  writes an own entry, except for the key \<open>__proto__\<close>: the setter of \<open>Object.prototype\<close>
  ignores a string, and the headers stay as they are.
\<close>

definition indexOfColon :: "string \<Rightarrow> nat option" where
  "indexOfColon h =
     (if CHR '':'' \<in> set h then Some (length (takeWhile (\<lambda>c. c \<noteq> CHR '':'') h)) else None)"

definition addHeader :: "(string \<times> string) list \<Rightarrow> string \<Rightarrow> (string \<times> string) list" where
  "addHeader hs h =
     (case indexOfColon h of
        None \<Rightarrow> hs
      | Some colonIndex \<Rightarrow>
          if colonIndex > 0
          then (let key = trim (take colonIndex h);
                    v = trim (drop (colonIndex + 1) h)
                in if key = ''__proto__'' then hs else setOwn key v hs)
          else hs)"

text \<open>
  \<open>parseCurl(curlCommand)\<close>. The result of \<open>extractDataAggressively(curlCommand)\<close>, which
  rests on \<open>JSON.parse\<close>, is the parameter \<open>extracted\<close>: the value it returns, \<open>null\<close> when
  it finds no data.
\<close>

definition parseCurl :: "(string \<Rightarrow> json) \<Rightarrow> string \<Rightarrow> request" where
  "parseCurl extracted curlCommand =
     (let parsedUrl = findUrl urlPatterns curlCommand;
          method0 = (case methodMatch curlCommand of
                       Some m \<Rightarrow> toUpperCase m | None \<Rightarrow> ''GET'');
          hs = foldl addHeader [] (allMatches headerAt 0 curlCommand);
          d = extracted curlCommand;
          method1 = (if truthy d \<and> method0 = ''GET'' then ''POST'' else method0)
      in \<lparr> method = method1, url = parsedUrl, headers = hs, data = d, params = [] \<rparr>)"

subsection \<open>Running the tests\<close>

text \<open>
  The body of the loop of \<open>runTests\<close>, after the \<open>await\<close>: it formats the summary, labels the
  case, counts it and stores the result. \<open>formatCurlSummary\<close> calls \<open>JSON.stringify\<close> on data
  that is an object or an array, and that throws on a circular payload; then the \<open>catch\<close> of
  the loop body counts a failure and no result is stored. No other statement of the body
  throws.
\<close>

datatype label = PASS | FAIL | ERROR

definition statusLabel :: "testCase \<Rightarrow> response \<Rightarrow> label" where
  "statusLabel tc resp =
     (if status resp = 0 then ERROR
      else if isExpectedResult (status resp) (expectedStatus tc) (type tc) then PASS
      else FAIL)"

definition verdict :: "testCase \<Rightarrow> response \<Rightarrow> bool" where
  "verdict tc resp = (statusLabel tc resp = PASS)"

definition mkResult :: "testCase \<Rightarrow> response \<Rightarrow> result" where
  "mkResult tc resp =
     \<lparr> testName = type tc @ '' - '' @ description tc,
       responseCode = status resp,
       expected = expectedStatus tc,
       actual = status resp,
       passed = verdict tc resp,
       resultError = error resp,
       resultTestCase = tc \<rparr>"

definition formatCurlSummaryThrows :: "request \<Rightarrow> bool" where
  "formatCurlSummaryThrows req = (truthy (data req) \<and> isObjectLike (data req) \<and> circular (data req))"

text \<open>
  The state of a run: \<open>this.results\<close>, the two counters, the requests handed to the
  executor so far, the local \<open>testCases\<close>, and how the run ended: with the message that the
  URL could not be extracted, with \<open>printSummary\<close>, or not at all, the loop waiting for a
  promise that is never resolved.
\<close>

datatype runOutcome = CouldNotExtractURL | SummaryPrinted | NeverResumed

record runState =
  results :: "result list"
  passCount :: nat
  failCount :: nat
  calls :: "request list"
  generated :: "testCase list"
  outcome :: runOutcome

definition runOne :: "runState \<Rightarrow> testCase \<Rightarrow> response \<Rightarrow> runState" where
  "runOne st tc resp =
     (if formatCurlSummaryThrows (request tc) then st\<lparr>failCount := failCount st + 1\<rparr>
      else (let st' = (case statusLabel tc resp of
                         ERROR \<Rightarrow> st\<lparr>failCount := failCount st + 1\<rparr>
                       | PASS \<Rightarrow> st\<lparr>passCount := passCount st + 1\<rparr>
                       | FAIL \<Rightarrow> st\<lparr>failCount := failCount st + 1\<rparr>)
            in st'\<lparr>results := results st' @ [mkResult tc resp]\<rparr>))"

fun runLoop :: "network \<Rightarrow> runState \<Rightarrow> testCase list \<Rightarrow> runState" where
  "runLoop net st [] = st\<lparr>outcome := SummaryPrinted\<rparr>"
| "runLoop net st (tc # rest) =
     (case executeRequest net (calls st) (request tc) of
        (None, calls') \<Rightarrow> st\<lparr>calls := calls', outcome := NeverResumed\<rparr>
      | (Some resp, calls') \<Rightarrow> runLoop net (runOne (st\<lparr>calls := calls'\<rparr>) tc resp) rest)"

text \<open>
  \<open>runTests(curlCommand, schema, expectedStatus)\<close> on a new tester (\<open>results\<close> empty). If
  the parsed URL is empty it reports the error and returns: no case is generated, no request
  is made, no summary is printed.
\<close>

definition runTests :: "(string \<Rightarrow> json) \<Rightarrow> real stream \<Rightarrow> network \<Rightarrow> string \<Rightarrow> int \<Rightarrow> runState" where
  "runTests extracted rnd net curlCommand expStatus =
     (let parsed = parseCurl extracted curlCommand;
          st0 = \<lparr> results = [], passCount = 0, failCount = 0, calls = [], generated = [],
                  outcome = CouldNotExtractURL \<rparr>
      in if url parsed = [] then st0
         else (let testCases = generateTestCases rnd parsed expStatus
               in runLoop net (st0\<lparr>generated := testCases\<rparr>) testCases))"

subsection \<open>Notions used to state the properties\<close>

text \<open>
  A payload as \<open>JSON.parse\<close> returns it: no \<open>undefined\<close> anywhere, no reference to the
  pool's object and, in every object, distinct keys.
\<close>

fun wellFormed :: "json \<Rightarrow> bool" where
  "wellFormed JUndefined = False"
| "wellFormed (JArr xs) = list_all wellFormed xs"
| "wellFormed (JObj kvs) = (distinct (map fst kvs) \<and> list_all (\<lambda>kv. wellFormed (snd kv)) kvs)"
| "wellFormed JPool = False"
| "wellFormed v = True"

text \<open>
  The payload with the node at a path deleted and nothing else changed: the key named by
  the last segment is removed from the object that the segments before it lead to.
\<close>

fun deleteAt :: "entries \<Rightarrow> string list \<Rightarrow> entries" where
  "deleteAt kvs [] = kvs"
| "deleteAt kvs [k] = AList.delete k kvs"
| "deleteAt kvs (k # k' # ks) =
     AList.map_entry k (\<lambda>v. case v of JObj sub \<Rightarrow> JObj (deleteAt sub (k' # ks)) | _ \<Rightarrow> v) kvs"

text \<open>The paths that the traversal visits, and the payloads of a list of test cases.\<close>

definition pathsOf :: "entries \<Rightarrow> string list list" where
  "pathsOf kvs = map fst (traverseObject kvs [])"

definition payloadCount :: "testCase list \<Rightarrow> entries \<Rightarrow> nat" where
  "payloadCount tcs p = length (filter (\<lambda>tc. data (request tc) = JObj p) tcs)"

text \<open>The value that a path leads to, \<open>undefined\<close> if it leads nowhere.\<close>

fun getPath :: "entries \<Rightarrow> string list \<Rightarrow> json" where
  "getPath cur [] = JUndefined"
| "getPath cur [k] = getProp cur k"
| "getPath cur (k # k' # ks) =
     (case getProp cur k of JObj sub \<Rightarrow> getPath sub (k' # ks) | _ \<Rightarrow> JUndefined)"

text \<open>
  Some segment before the last leads, through objects that are there, to something that is
  there and is neither \<open>null\<close> nor a plain object: a string, a number, a boolean, an array,
  or a function that the object inherits from \<open>Object.prototype\<close>.
\<close>

fun blockedAt :: "entries \<Rightarrow> string list \<Rightarrow> bool" where
  "blockedAt cur [] = False"
| "blockedAt cur [k] = False"
| "blockedAt cur (k # k' # ks) =
     (case readMember cur k of
        Absent \<Rightarrow> False
      | ObjectPrototype \<Rightarrow> False
      | InheritedFunction \<Rightarrow> True
      | Own w \<Rightarrow>
          (case w of
             JUndefined \<Rightarrow> False
           | JNull \<Rightarrow> False
           | JPool \<Rightarrow> False
           | JObj sub \<Rightarrow> blockedAt sub (k' # ks)
           | _ \<Rightarrow> True))"

text \<open>
  A method flag at the head of a text, in the words of the regular expression
  \<open>/-X\s+(\w+)|--request\s+(\w+)/i\<close>: the letters of \<open>-X\<close> or of \<open>--request\<close> in either case,
  then white space, then the word, which ends where the word characters end. A method flag
  occurs at position \<open>n\<close> of a command if the text from there on has one at its head.
\<close>

definition flagHead :: "string \<Rightarrow> string \<Rightarrow> bool" where
  "flagHead t w \<longleftrightarrow>
     (\<exists>flag ws rest.
        t = flag @ ws @ w @ rest
        \<and> (toUpperCase flag = ''-X'' \<or> toUpperCase flag = ''--REQUEST'')
        \<and> ws \<noteq> [] \<and> list_all isSpace ws
        \<and> w \<noteq> [] \<and> list_all isWordChar w
        \<and> (case rest of [] \<Rightarrow> True | c # cs \<Rightarrow> \<not> isWordChar c))"

definition flagAt :: "string \<Rightarrow> nat \<Rightarrow> string \<Rightarrow> bool" where
  "flagAt cmd n w \<longleftrightarrow> n \<le> length cmd \<and> flagHead (drop n cmd) w"

subsection \<open>Sample inputs\<close>

definition sampleRequest :: request where
  "sampleRequest =
     \<lparr> method = ''POST'', url = ''https://api.example.com/items'',
       headers = [(''Content-Type'', ''application/json'')],
       data = JObj [(''name'', JStr ''Widget''), (''year'', JNum 2020)], params = [] \<rparr>"



definition answered :: "int \<Rightarrow> response" where
  "answered s = \<lparr> status = s, error = None, body = JObj [], responseHeaders = [] \<rparr>"

definition caseOfType :: "string \<Rightarrow> testCase" where
  "caseOfType ty =
     \<lparr> type = ty, description = ''sample'', request = sampleRequest,
       expectedStatus = 400, expectedResult = ''400 Bad Request'' \<rparr>"



text \<open>
  What \<open>extractDataAggressively\<close> returns on a command without data, and a network on which
  every request times out.
\<close>

definition silent :: "string \<Rightarrow> json" where
  "silent cmd = JNull"

definition timeouts :: network where
  "timeouts n req = TimeoutEvent"

text \<open>
  A network on which every response begins and is then lost, and the request that
  \<open>curl http://x.y/z\<close> is parsed to when no data is found.
\<close>

definition lostResponses :: network where
  "lostResponses n req = ResponseLost"

definition getXY :: request where
  "getXY = \<lparr> method = ''GET'', url = ''http://x.y/z'', headers = [], data = JNull, params = [] \<rparr>"

text \<open>
  Commands for the method: one with the proxy flag \<open>-x\<close>, one whose URL ends a word in
  \<open>-x\<close>, and one with the payload \<open>0\<close>, on which \<open>extractDataAggressively\<close> returns the
  number 0 (\<open>JSON.parse('0')\<close>).
\<close>

definition proxyCommand :: string where
  "proxyCommand = ''curl -x proxy.local:3128 http://a.b/c''"

definition dashCommand :: string where
  "dashCommand = ''curl http://a.b/pre-x next''"

definition zeroCommand :: string where
  "zeroCommand = ''curl http://x.y/z -d '' @ [sq] @ ''0'' @ [sq]"

definition zeroFound :: "string \<Rightarrow> json" where
  "zeroFound cmd = JNum 0"

text \<open>
  Two commands with the payload \<open>{}\<close>, on which \<open>extractDataAggressively\<close> returns an empty
  object: one with the flag \<open>--request get\<close>, one without a flag.
\<close>

definition objectCommand :: string where
  "objectCommand = ''curl --request get http://x.y/z -d '' @ [sq] @ ''{}'' @ [sq]"

definition plainObjectCommand :: string where
  "plainObjectCommand = ''curl http://x.y/z -d '' @ [sq] @ ''{}'' @ [sq]"

definition objectFound :: "string \<Rightarrow> json" where
  "objectFound cmd = JObj []"

text \<open>
  A payload with a leaf at depth 3, and the entries of the object that
  \<open>reconstructMacBookJSON()\<close> returns.
\<close>

definition nested3 :: entries where
  "nested3 = [(''a'', JObj [(''b'', JObj [(''c'', JNum 1)])])]"

definition macBookEntries :: entries where
  "macBookEntries =
     [(''name'', JStr ''Apple MacBook Pro 16''),
      (''data'', JObj [(''year'', JNum 2019), (''price'', JNum (184999 / 100)),
                       (''CPU model'', JStr ''Intel Core i9''),
                       (''Hard disk size'', JStr ''1 TB'')])]"

definition reconstructMacBookJSON :: json where
  "reconstructMacBookJSON = JObj macBookEntries"

section \<open>Properties\<close>

subsection \<open>The classifier\<close>

lemma isExpectedResult_threshold:
  assumes "ty \<noteq> ''Positive''"
    and "includesStr ty ''Negative'' \<or> includesStr ty ''Security'' \<or> includesStr ty ''Edge''
         \<or> includesStr ty ''Fuzz''"
  shows "isExpectedResult s e ty \<longleftrightarrow> 400 \<le> s"
  using assms by (simp add: isExpectedResult_def)

lemma passed_mkResult: "passed (mkResult tc resp) = verdict tc resp"
  by (simp add: mkResult_def)

lemma verdict_nonzero:
  "status resp \<noteq> 0 \<Longrightarrow>
   verdict tc resp = isExpectedResult (status resp) (expectedStatus tc) (type tc)"
  by (simp add: verdict_def statusLabel_def)

lemma verdict_zero: "status resp = 0 \<Longrightarrow> \<not> verdict tc resp"
  by (simp add: verdict_def statusLabel_def)

text \<open>
  C1, as the spec states it, fails: a Header-Variant case (type 'Negative - Header', expected
  status 415) that is answered with 400 is marked passed. The case is the first one that
  \<open>generateHeaderTests\<close> emits for the sample request.
\<close>

theorem header_variant_passes_on_400:
  "type (hd (generateHeaderTests sampleRequest)) = ''Negative - Header''
   \<and> expectedStatus (hd (generateHeaderTests sampleRequest)) = 415
   \<and> status (answered 400) \<noteq> 0 \<and> status (answered 400) \<noteq> 415
   \<and> passed (mkResult (hd (generateHeaderTests sampleRequest)) (answered 400))"
  by (simp add: generateHeaderTests_def sampleRequest_def headerCase_def answered_def
      mkResult_def verdict_def statusLabel_def isExpectedResult_def cloneRequest_def)

text \<open>
  C1, amended: for every executed test case of type 'Negative - Header' and every non-zero
  observed status, the case is marked passed if and only if the status is at least 400,
  whatever its expected status; the type contains 'Negative', so the rule of the negative
  categories applies to it.
\<close>

theorem header_variant_passes_iff_ge_400:
  assumes "type tc = ''Negative - Header''" and "status resp \<noteq> 0"
  shows "passed (mkResult tc resp) \<longleftrightarrow> 400 \<le> status resp"
  using assms by (simp add: passed_mkResult verdict_nonzero isExpectedResult_def)

theorem header_variant_passes_iff_ge_400_witness:
  "passed (mkResult (caseOfType ''Negative - Header'') (answered 415))
   \<and> passed (mkResult (caseOfType ''Negative - Header'') (answered 400))
   \<and> \<not> passed (mkResult (caseOfType ''Negative - Header'') (answered 200))"
  using header_variant_passes_iff_ge_400 [of "caseOfType ''Negative - Header''" "answered 415"]
    header_variant_passes_iff_ge_400 [of "caseOfType ''Negative - Header''" "answered 400"]
    header_variant_passes_iff_ge_400 [of "caseOfType ''Negative - Header''" "answered 200"]
  by (simp add: caseOfType_def answered_def)




lemma type_finished [simp]: "type (finished pool tc) = type tc"
  by (simp add: finished_def)






text \<open>
  C5: for every test case of the categories Missing-Field, Type-Mismatch, Null-Value,
  Empty-Value (types 'Negative - Missing', 'Negative - Type', 'Negative - Null',
  'Negative - Empty'), Security (a type 'Security - ' followed by the attack name) and Edge
  (a type 'Edge - ' followed by the kind), and for every non-zero observed status, the case
  is marked passed if and only if the status is at least 400.
\<close>

theorem negative_categories_pass_iff_ge_400:
  assumes "type tc \<in> {''Negative - Missing'', ''Negative - Type'', ''Negative - Null'',
                      ''Negative - Empty''}
           \<or> (\<exists>name. type tc = ''Security - '' @ name)
           \<or> (\<exists>kind. type tc = ''Edge - '' @ kind)"
    and "status resp \<noteq> 0"
  shows "passed (mkResult tc resp) \<longleftrightarrow> 400 \<le> status resp"
proof -
  have "isExpectedResult (status resp) (expectedStatus tc) (type tc) \<longleftrightarrow> 400 \<le> status resp"
    using assms(1) by (intro isExpectedResult_threshold) auto
  then show ?thesis
    using assms(2) by (simp add: passed_mkResult verdict_nonzero)
qed

theorem negative_categories_pass_iff_ge_400_witness:
  "passed (mkResult (caseOfType ''Negative - Missing'') (answered 422))
   \<and> \<not> passed (mkResult (caseOfType ''Negative - Missing'') (answered 201))
   \<and> passed (mkResult (caseOfType (''Security - '' @ ''XSS'')) (answered 500))
   \<and> \<not> passed (mkResult (caseOfType (''Edge - '' @ ''Long'')) (answered 399))"
  using negative_categories_pass_iff_ge_400 [of "caseOfType ''Negative - Missing''" "answered 422"]
    negative_categories_pass_iff_ge_400 [of "caseOfType ''Negative - Missing''" "answered 201"]
    negative_categories_pass_iff_ge_400 [of "caseOfType (''Security - '' @ ''XSS'')" "answered 500"]
    negative_categories_pass_iff_ge_400 [of "caseOfType (''Edge - '' @ ''Long'')" "answered 399"]
  by (simp add: caseOfType_def answered_def)

subsection \<open>The generated cases\<close>

lemma type_negativeCase [simp]: "type (negativeCase base ty descr md) = ty"
  by (simp add: negativeCase_def)




lemma headers_cloneRequest [simp]: "headers (cloneRequest r) = headers r"
  by (simp add: cloneRequest_def)

















subsection \<open>Setting a value at a path\<close>

lemma update_same: "map_of cur k = Some x \<Longrightarrow> AList.update k x cur = cur"
  by (induction cur) (auto split: if_splits)

lemma getProp_update [simp]: "getProp (AList.update k x cur) k = x"
  by (simp add: getProp_def update_conv')

lemma map_of_insertIndexed:
  "k \<notin> fst ` set kvs \<Longrightarrow> map_of (insertIndexed n k x kvs) = (map_of kvs)(k \<mapsto> x)"
proof (induction kvs)
  case Nil
  show ?case by simp
next
  case (Cons kv rest)
  then have "fst kv \<noteq> k" and IH: "map_of (insertIndexed n k x rest) = (map_of rest)(k \<mapsto> x)"
    by auto
  then show ?case
    by (cases kv) (auto simp: fun_upd_twist split: option.splits)
qed

lemma map_of_setOwn: "map_of (setOwn k x kvs) = (map_of kvs)(k \<mapsto> x)"
proof (cases "k \<in> set (keys kvs)")
  case True
  then show ?thesis by (simp add: setOwn_def update_conv')
next
  case False
  then have none: "map_of kvs k = None" and notin: "k \<notin> fst ` set kvs"
    by (simp_all add: keys_def map_of_eq_None_iff)
  have "map_of (kvs @ [(k, x)]) = (map_of kvs)(k \<mapsto> x)"
    using none by (auto simp: map_add_def fun_eq_iff split: option.splits)
  with False notin show ?thesis
    by (simp add: setOwn_def map_of_insertIndexed split: option.splits)
qed

lemma getProp_setOwn [simp]: "getProp (setOwn k x cur) k = x"
  by (simp add: getProp_def map_of_setOwn)

lemma readMember_Own: "readMember cur k = Own w \<longleftrightarrow> map_of cur k = Some w"
  by (simp add: readMember_def split: option.splits)

lemma getProp_Own: "readMember cur k = Own w \<Longrightarrow> getProp cur k = w"
  by (simp add: readMember_Own getProp_def)

lemma reachesPool_entry:
  "map_of cur k = Some w \<Longrightarrow> \<not> reachesPool (JObj cur) \<Longrightarrow> \<not> reachesPool w"
  by (auto simp: list_ex_iff dest!: map_of_SomeD)

lemma blockedAt_empty:
  "set path \<inter> set objectPrototypeMembers = {} \<Longrightarrow> \<not> blockedAt [] path"
  by (cases "([] :: entries, path)" rule: blockedAt.cases)
    (simp_all add: readMember_def objectPrototypeMembers_def)

text \<open>A walk that is blocked leaves the object as it is and logs.\<close>

lemma setNested_blocked:
  "blockedAt cur path \<Longrightarrow> setNested cur full path v = Returned cur (Some (IntermediateNotObject full))"
proof (induction path arbitrary: cur)
  case Nil
  then show ?case by simp
next
  case (Cons k rest)
  show ?case
  proof (cases rest)
    case Nil
    with Cons.prems show ?thesis by simp
  next
    case (Cons k' ks)
    show ?thesis
    proof (cases "readMember cur k")
      case (Own w)
      show ?thesis
      proof (cases w)
        case (JObj sub)
        with Cons.prems Own \<open>rest = k' # ks\<close> have "blockedAt sub rest"
          by simp
        then have "setNested sub full rest v = Returned sub (Some (IntermediateNotObject full))"
          by (rule Cons.IH)
        moreover have "AList.update k (JObj sub) cur = cur"
          using Own JObj by (simp add: readMember_Own update_same)
        ultimately show ?thesis
          using Own JObj \<open>rest = k' # ks\<close> by simp
      qed (use Cons.prems Own \<open>rest = k' # ks\<close> in simp_all)
    qed (use Cons.prems \<open>rest = k' # ks\<close> in simp_all)
  qed
qed

text \<open>
  A walk that nothing blocks, on a tree and along names that \<open>Object.prototype\<close> does not
  have, sets the value and logs nothing.
\<close>

lemma assign_plain:
  "k \<noteq> ''__proto__'' \<Longrightarrow> assign k v cur = Returned (setOwn k v cur) None"
  by (simp add: assign_def)

lemma setNested_not_blocked:
  assumes "\<not> blockedAt cur path"
    and "\<not> reachesPool (JObj cur)"
    and "set path \<inter> set objectPrototypeMembers = {}"
  shows "\<exists>obj. setNested cur full path v = Returned obj None
               \<and> (path \<noteq> [] \<longrightarrow> getPath obj path = v)"
  using assms
proof (induction path arbitrary: cur)
  case Nil
  then show ?case by (simp add: assign_plain)
next
  case (Cons k rest)
  from Cons.prems(3) have k: "k \<noteq> ''__proto__''" "k \<notin> set objectPrototypeFunctions"
    and rest: "set rest \<inter> set objectPrototypeMembers = {}"
    by (auto simp: objectPrototypeMembers_def)
  show ?case
  proof (cases rest)
    case Nil
    with k show ?thesis by (simp add: assign_plain)
  next
    case (Cons k' ks)
    have step: "\<exists>obj. setNested sub full rest v = Returned obj None \<and> getPath obj rest = v"
      if "\<not> blockedAt sub rest" and "\<not> reachesPool (JObj sub)" for sub
      using Cons.IH [OF that rest] \<open>rest = k' # ks\<close> by simp
    have fresh: "\<exists>obj. inside (\<lambda>sub. setOwn k (JObj sub) cur) (setNested [] full rest v)
                         = Returned obj None
                       \<and> getPath obj (k # rest) = v"
    proof -
      from step [of "[]"] blockedAt_empty [OF rest] obtain obj where
        "setNested [] full rest v = Returned obj None" "getPath obj rest = v"
        by auto
      then show ?thesis
        using \<open>rest = k' # ks\<close> by simp
    qed
    show ?thesis
    proof (cases "readMember cur k")
      case (Own w)
      then have w: "map_of cur k = Some w"
        by (simp add: readMember_Own)
      show ?thesis
      proof (cases w)
        case JUndefined
        with fresh Own \<open>rest = k' # ks\<close> show ?thesis by simp
      next
        case JNull
        with fresh Own \<open>rest = k' # ks\<close> show ?thesis by simp
      next
        case (JObj sub)
        with Cons.prems(1) Own \<open>rest = k' # ks\<close> have "\<not> blockedAt sub rest"
          by simp
        moreover have "\<not> reachesPool (JObj sub)"
          using reachesPool_entry [OF w Cons.prems(2)] JObj by simp
        ultimately obtain obj where
          "setNested sub full rest v = Returned obj None" "getPath obj rest = v"
          using step by blast
        with Own JObj \<open>rest = k' # ks\<close> show ?thesis
          by simp
      next
        case JPool
        with reachesPool_entry [OF w Cons.prems(2)] show ?thesis by simp
      qed (use Cons.prems(1) Own \<open>rest = k' # ks\<close> in simp_all)
    next
      case InheritedFunction
      with k show ?thesis by (simp add: readMember_def split: option.splits)
    next
      case ObjectPrototype
      with k show ?thesis by (simp add: readMember_def split: option.splits if_splits)
    next
      case Absent
      with fresh \<open>rest = k' # ks\<close> show ?thesis by simp
    qed
  qed
qed

text \<open>Without a segment \<open>__proto__\<close> the call on a tree returns.\<close>

lemma inside_Returned:
  "r = Returned obj d \<Longrightarrow> inside f r = Returned (f obj) d"
  by simp

lemma setNested_returns:
  assumes "''__proto__'' \<notin> set path" and "\<not> reachesPool (JObj cur)"
  shows "\<exists>obj d. setNested cur full path v = Returned obj d"
  using assms
proof (induction path arbitrary: cur)
  case Nil
  then show ?case by (simp add: assign_plain)
next
  case (Cons k rest)
  then have k: "k \<noteq> ''__proto__''" and rest: "''__proto__'' \<notin> set rest"
    by auto
  show ?case
  proof (cases rest)
    case Nil
    with k show ?thesis by (simp add: assign_plain)
  next
    case (Cons k' ks)
    have step: "\<exists>obj d. inside f (setNested sub full rest v) = Returned obj d"
      if "\<not> reachesPool (JObj sub)" for sub f
      using Cons.IH [OF rest that] by auto
    show ?thesis
    proof (cases "readMember cur k")
      case (Own w)
      then have w: "map_of cur k = Some w"
        by (simp add: readMember_Own)
      show ?thesis
      proof (cases w)
        case (JObj sub)
        have "\<not> reachesPool (JObj sub)"
          using reachesPool_entry [OF w Cons.prems(2)] JObj by simp
        from step [OF this] Own JObj \<open>rest = k' # ks\<close> show ?thesis
          by simp
      next
        case JPool
        with reachesPool_entry [OF w Cons.prems(2)] show ?thesis by simp
      qed (use step [of "[]"] Own \<open>rest = k' # ks\<close> in simp_all)
    next
      case ObjectPrototype
      with k show ?thesis by (simp add: readMember_def split: option.splits if_splits)
    qed (use step [of "[]"] \<open>rest = k' # ks\<close> in simp_all)
  qed
qed

text \<open>
  On any object, a call whose path has no segment \<open>__proto__\<close> neither throws nor touches a
  prototype: it returns or goes on in the pool's object.
\<close>

lemma setNested_without_proto:
  assumes "''__proto__'' \<notin> set path"
  shows "(\<exists>obj d. setNested cur full path v = Returned obj d)
         \<or> (\<exists>rest. setNested cur full path v = EnteredPool rest)"
  using assms
proof (induction path arbitrary: cur)
  case Nil
  then show ?case by (simp add: assign_plain)
next
  case (Cons k rest)
  then have k: "k \<noteq> ''__proto__''" and rest: "''__proto__'' \<notin> set rest"
    by auto
  show ?case
  proof (cases rest)
    case Nil
    with k show ?thesis by (simp add: assign_plain)
  next
    case (Cons k' ks)
    have step: "(\<exists>obj d. inside f (setNested sub full rest v) = Returned obj d)
                \<or> (\<exists>r. inside f (setNested sub full rest v) = EnteredPool r)" for sub f
      using Cons.IH [OF rest, of sub] by auto
    show ?thesis
    proof (cases "readMember cur k")
      case (Own w)
      show ?thesis
        by (cases w) (use step Own \<open>rest = k' # ks\<close> in simp_all)
    next
      case ObjectPrototype
      with k show ?thesis by (simp add: readMember_def split: option.splits if_splits)
    qed (use step \<open>rest = k' # ks\<close> in simp_all)
  qed
qed

text \<open>
  C9, as the spec states it, fails twice.
  \<^item> In the object \<open>{a: null}\<close> the segment \<open>a\<close> of the path \<open>a.b\<close> does not lead to a plain
    object, and yet \<open>setNestedValue\<close> does not skip: it overwrites \<open>a\<close> with a new object,
    sets \<open>b\<close> in it and logs nothing. The same happens when \<open>a\<close> is \<open>undefined\<close>, as it is
    after the fuzz generator has put \<open>undefined\<close> there.
  \<^item> The operation is not total: on the empty object the path \<open>__proto__.__proto__.x\<close> walks
    into \<open>Object.prototype\<close>, reads \<open>null\<close> as its prototype and assigns \<open>{}\<close> to it, which
    throws a \<open>TypeError\<close>; the path \<open>__proto__.x\<close> writes \<open>x\<close> into \<open>Object.prototype\<close>.
\<close>

theorem null_segment_is_overwritten:
  "getPath [(''a'', JNull)] [''a''] = JNull
   \<and> \<not> isPlainObject (getPath [(''a'', JNull)] [''a''])
   \<and> setNestedValue [(''a'', JNull)] [''a'', ''b''] (JNum 1)
       = Returned [(''a'', JObj [(''b'', JNum 1)])] None
   \<and> setNestedValue [(''a'', JUndefined)] [''a'', ''b''] (JNum 1)
       = Returned [(''a'', JObj [(''b'', JNum 1)])] None
   \<and> setNestedValue [] [''__proto__'', ''__proto__'', ''x''] (JNum 1) = Threw []
   \<and> setNestedValue [] [''__proto__'', ''x''] (JNum 1) = WroteObjectPrototype []"
  by (simp add: setNestedValue_def getProp_def readMember_def assign_def setOwn_def keys_def
      arrayIndex_def digitValue_def inObjectPrototype_def objectPrototypeFunctions_def)

text \<open>
  C9, amended. For every plain object, path and value:
  \<^item> if a segment before the last leads, through objects that are there, to a value that
    is there and is neither \<open>null\<close> nor a plain object (a string, a number, a boolean, an
    array, or a function inherited from \<open>Object.prototype\<close> such as \<open>constructor\<close>), the
    mutation is skipped: the call returns, the object is left as it was and the diagnostic
    is logged;
  \<^item> if nothing blocks the path in this way, the object is a tree and no segment is the
    name of a member of \<open>Object.prototype\<close>, the call returns, nothing is logged and the
    value is set at the path; a segment that is absent, \<open>undefined\<close> or \<open>null\<close> is replaced by
    a new empty object on the way;
  \<^item> if the object is a tree and no segment is \<open>__proto__\<close>, the call returns: it does not
    throw and touches no prototype.
\<close>

theorem setNestedValue_skips_or_sets:
  "(blockedAt obj path \<longrightarrow>
      setNestedValue obj path v = Returned obj (Some (IntermediateNotObject path)))
   \<and> (\<not> blockedAt obj path \<and> \<not> reachesPool (JObj obj)
        \<and> set path \<inter> set objectPrototypeMembers = {} \<longrightarrow>
      (\<exists>obj'. setNestedValue obj path v = Returned obj' None
              \<and> (path \<noteq> [] \<longrightarrow> getPath obj' path = v)))
   \<and> (''__proto__'' \<notin> set path \<and> \<not> reachesPool (JObj obj) \<longrightarrow>
      (\<exists>obj' d. setNestedValue obj path v = Returned obj' d))"
  unfolding setNestedValue_def
  using setNested_blocked [of obj path path v] setNested_not_blocked [of obj path path v]
    setNested_returns [of path obj path v]
  by blast

theorem setNestedValue_skips_or_sets_witness:
  "blockedAt [(''a'', JStr ''x'')] [''a'', ''b'']
   \<and> setNestedValue [(''a'', JStr ''x'')] [''a'', ''b''] (JNum 1)
       = Returned [(''a'', JStr ''x'')] (Some (IntermediateNotObject [''a'', ''b'']))
   \<and> blockedAt [(''a'', JObj [])] [''a'', ''constructor'', ''b'']
   \<and> setNestedValue [(''a'', JObj [])] [''a'', ''constructor'', ''b''] (JNum 1)
       = Returned [(''a'', JObj [])] (Some (IntermediateNotObject [''a'', ''constructor'', ''b'']))
   \<and> \<not> blockedAt [(''a'', JObj [])] [''a'', ''b'']
   \<and> \<not> reachesPool (JObj [(''a'', JObj [])])
   \<and> set [''a'', ''b''] \<inter> set objectPrototypeMembers = {}
   \<and> (\<exists>obj'. setNestedValue [(''a'', JObj [])] [''a'', ''b''] (JNum 1) = Returned obj' None
              \<and> getPath obj' [''a'', ''b''] = JNum 1)
   \<and> ''__proto__'' \<notin> set [''c'', ''constructor'', ''b'']
   \<and> (\<exists>obj' d. setNestedValue [(''a'', JObj [])] [''c'', ''constructor'', ''b''] (JNum 1)
                  = Returned obj' d)"
  using setNestedValue_skips_or_sets [of "[(''a'', JStr ''x'')]" "[''a'', ''b'']" "JNum 1"]
    setNestedValue_skips_or_sets [of "[(''a'', JObj [])]" "[''a'', ''constructor'', ''b'']" "JNum 1"]
    setNestedValue_skips_or_sets [of "[(''a'', JObj [])]" "[''a'', ''b'']" "JNum 1"]
    setNestedValue_skips_or_sets [of "[(''a'', JObj [])]" "[''c'', ''constructor'', ''b'']" "JNum 1"]
  by (simp add: readMember_def objectPrototypeMembers_def objectPrototypeFunctions_def)
subsection \<open>A command without a URL\<close>

text \<open>
  A pattern that matches captures at least one character, so the parsed URL is empty exactly
  when no pattern matches.
\<close>

lemma firstMatch_Some: "firstMatch m s = Some u \<Longrightarrow> \<exists>t. m t = Some u"
  by (induction s) (auto split: option.splits)

lemma run1_nonempty [simp]: "run1 cls s \<noteq> Some ([], r)"
  by (auto simp: run1_def split: if_splits)

lemma scheme_nonempty [simp]: "scheme s \<noteq> Some ([], r)"
  by (auto simp: scheme_def split: option.splits)

lemma quotedUrl_nonempty [simp]: "quotedUrl q s \<noteq> Some []"
  by (auto simp: quotedUrl_def split: option.splits)

lemma quotedArg_nonempty [simp]: "quotedArg s \<noteq> Some ([], r)"
  by (auto simp: quotedArg_def split: option.splits)

lemma flagUrl_nonempty [simp]: "flagUrl flag s \<noteq> Some []"
  by (auto simp: flagUrl_def split: option.splits)

lemma bareUrl_nonempty [simp]: "bareUrl s \<noteq> Some []"
  by (auto simp: bareUrl_def split: option.splits)

lemma urlPatterns_nonempty:
  assumes "p \<in> set urlPatterns" and "p cmd = Some u"
  shows "u \<noteq> []"
  using assms by (auto simp: urlPatterns_def dest!: firstMatch_Some)

lemma findUrl_empty_iff:
  assumes "\<And>p u. p \<in> set ps \<Longrightarrow> p cmd = Some u \<Longrightarrow> u \<noteq> []"
  shows "findUrl ps cmd = [] \<longleftrightarrow> (\<forall>p \<in> set ps. p cmd = None)"
  using assms by (induction ps) (auto split: option.splits)

lemma url_empty_iff_no_match:
  "url (parseCurl ex cmd) = [] \<longleftrightarrow> (\<forall>p \<in> set urlPatterns. p cmd = None)"
  using findUrl_empty_iff [of urlPatterns cmd] urlPatterns_nonempty
  by (simp add: parseCurl_def Let_def)

lemma findUrl_none: "\<forall>p \<in> set ps. p cmd = None \<Longrightarrow> findUrl ps cmd = []"
  by (induction ps) auto

lemma no_url_in_sample: "list_all (\<lambda>p. p ''curl -X POST --data nothing'' = None) urlPatterns"
  by code_simp

lemma sample_without_url_parts:
  "methodMatch ''curl -X POST --data nothing'' = Some ''POST''"
  "allMatches headerAt 0 ''curl -X POST --data nothing'' = []"
  "toUpperCase ''POST'' = ''POST''"
  by code_simp+

text \<open>
  C6, as the spec states it, fails in its first clause: on a text in which no pattern finds
  a URL the parser does not fail. The source has no error for a missing target and throws
  nothing: \<open>parseCurl\<close> returns the whole descriptor, with the method that it found and the
  empty URL.
\<close>

theorem parseCurl_returns_descriptor_without_url:
  "list_all (\<lambda>p. p ''curl -X POST --data nothing'' = None) urlPatterns
   \<and> parseCurl silent ''curl -X POST --data nothing''
       = \<lparr> method = ''POST'', url = [], headers = [], data = JNull, params = [] \<rparr>"
proof -
  have "findUrl urlPatterns ''curl -X POST --data nothing'' = []"
    using no_url_in_sample by (intro findUrl_none) (simp add: list_all_iff)
  then show ?thesis
    unfolding parseCurl_def Let_def sample_without_url_parts
    using no_url_in_sample by (simp add: silent_def sample_without_url_parts)
qed

text \<open>
  C6, amended: for every input text in which none of the URL patterns matches, the parser
  returns a descriptor whose URL is empty, and \<open>runTests\<close> reports that it could not extract
  the URL and returns: no test case is generated, no request is made, the results are the
  empty list and no summary is printed. Nothing is thrown.
\<close>

theorem no_url_aborts_run:
  assumes "\<forall>p \<in> set urlPatterns. p cmd = None"
  shows "url (parseCurl ex cmd) = []
         \<and> runTests ex rnd net cmd e =
             \<lparr> results = [], passCount = 0, failCount = 0, calls = [], generated = [],
               outcome = CouldNotExtractURL \<rparr>"
proof -
  have "url (parseCurl ex cmd) = []"
    using findUrl_none [OF assms] by (simp add: parseCurl_def Let_def)
  then show ?thesis
    by (simp add: runTests_def Let_def)
qed

theorem no_url_aborts_run_witness:
  "list_all (\<lambda>p. p ''curl -X POST --data nothing'' = None) urlPatterns
   \<and> url (parseCurl silent ''curl -X POST --data nothing'') = []
   \<and> results (runTests silent (sconst 0) timeouts ''curl -X POST --data nothing'' 201) = []
   \<and> generated (runTests silent (sconst 0) timeouts ''curl -X POST --data nothing'' 201) = []
   \<and> calls (runTests silent (sconst 0) timeouts ''curl -X POST --data nothing'' 201) = []
   \<and> outcome (runTests silent (sconst 0) timeouts ''curl -X POST --data nothing'' 201)
       = CouldNotExtractURL"
  using no_url_aborts_run [of "''curl -X POST --data nothing''" silent "sconst 0" timeouts 201]
    no_url_in_sample
  by (simp add: list_all_iff)
subsection \<open>The executor and the loop\<close>

lemma executeRequest_calls: "snd (executeRequest net cs req) = cs @ [req]"
  by (simp add: executeRequest_def Let_def)

text \<open>
  When the request emits \<open>error\<close> or \<open>timeout\<close> the promise is resolved with status 0 and a
  message (also if the request was never made because the payload could not be written).
\<close>

lemma executeRequest_failure:
  assumes "net (length cs) req = ErrorEvent msg \<or> net (length cs) req = TimeoutEvent"
  shows "\<exists>resp. executeRequest net cs req = (Some resp, cs @ [req])
                \<and> status resp = 0 \<and> error resp \<noteq> None"
  using assms
  by (auto simp: executeRequest_def Let_def resolved_def errorResponse_def split: option.splits)

text \<open>When the response is lost after it has begun, the promise of a request that was made is never resolved.\<close>

lemma executeRequest_lost:
  assumes "net (length cs) req = ResponseLost" and "postDataFailure (data req) = None"
  shows "executeRequest net cs req = (None, cs @ [req])"
  using assms by (simp add: executeRequest_def Let_def resolved_def)

text \<open>
  The body of the loop on a response with status 0: a failure is counted; the result is
  stored, not passed, unless the summary could not be formatted.
\<close>

lemma runOne_failure:
  assumes "status resp = 0"
  shows "failCount (runOne st tc resp) = failCount st + 1"
    and "passCount (runOne st tc resp) = passCount st"
    and "\<not> formatCurlSummaryThrows (request tc) \<Longrightarrow>
         results (runOne st tc resp) = results st @ [mkResult tc resp]"
    and "\<not> passed (mkResult tc resp)"
    and "responseCode (mkResult tc resp) = 0"
    and "resultError (mkResult tc resp) = error resp"
  using assms
  by (simp_all add: runOne_def statusLabel_def Let_def mkResult_def verdict_def)

lemma runOne_calls [simp]: "calls (runOne st tc resp) = calls st"
  by (simp add: runOne_def Let_def split: label.splits)

lemma runOne_generated [simp]: "generated (runOne st tc resp) = generated st"
  by (simp add: runOne_def Let_def split: label.splits)

text \<open>
  The calls of the executor in a run are the requests of the cases that the loop has come
  to, each once and in order: nothing is retried. The loop comes to all of them if it ends.
\<close>

lemma loop_calls:
  "\<exists>n \<le> length tcs.
     calls (runLoop net st tcs) = calls st @ map request (take n tcs)
     \<and> (outcome (runLoop net st tcs) = SummaryPrinted \<longrightarrow> n = length tcs)"
proof (induction tcs arbitrary: st)
  case Nil
  show ?case by simp
next
  case (Cons tc rest)
  have cs: "snd (executeRequest net (calls st) (request tc)) = calls st @ [request tc]"
    by (rule executeRequest_calls)
  show ?case
  proof (cases "fst (executeRequest net (calls st) (request tc))")
    case None
    with cs have "executeRequest net (calls st) (request tc) = (None, calls st @ [request tc])"
      by (simp add: prod_eq_iff)
    then have "calls (runLoop net st (tc # rest)) = calls st @ map request (take 1 (tc # rest))"
      and "outcome (runLoop net st (tc # rest)) \<noteq> SummaryPrinted"
      by simp_all
    then show ?thesis
      by (intro exI [of _ 1]) simp
  next
    case (Some resp)
    with cs have ex: "executeRequest net (calls st) (request tc) = (Some resp, calls st @ [request tc])"
      by (simp add: prod_eq_iff)
    define st' where "st' = runOne (st\<lparr>calls := calls st @ [request tc]\<rparr>) tc resp"
    from Cons.IH [of st'] obtain n where n: "n \<le> length rest"
      "calls (runLoop net st' rest) = calls st' @ map request (take n rest)"
      "outcome (runLoop net st' rest) = SummaryPrinted \<longrightarrow> n = length rest"
      by blast
    have "runLoop net st (tc # rest) = runLoop net st' rest"
      by (simp add: ex st'_def)
    with n show ?thesis
      by (intro exI [of _ "Suc n"]) (simp add: st'_def)
  qed
qed

lemma methodMatch_samples:
  "methodMatch ''curl http://x.y/z'' = None"
  "methodMatch ''curl -x put http://x.y/z'' = Some ''put''"
  "methodMatch ''curl --request GET http://x.y/z'' = Some ''GET''"
  by code_simp+

lemma sample_get_parts:
  "findUrl urlPatterns ''curl http://x.y/z'' = ''http://x.y/z''"
  "allMatches headerAt 0 ''curl http://x.y/z'' = []"
  by code_simp+

lemma parse_sample_get:
  "parseCurl ex ''curl http://x.y/z'' =
     \<lparr> method = (if truthy (ex ''curl http://x.y/z'') then ''POST'' else ''GET''),
       url = ''http://x.y/z'', headers = [], data = ex ''curl http://x.y/z'', params = [] \<rparr>"
  unfolding parseCurl_def Let_def methodMatch_samples sample_get_parts by simp

lemma generated_sample_get:
  "generateTestCases rnd (parseCurl silent ''curl http://x.y/z'') 201 = [positiveCase getXY 201]"
  by (simp add: parse_sample_get silent_def generateTestCases_def Let_def cloneRequest_def
      keys_def getXY_def)

text \<open>
  C7 holds on the two paths that the executor handles, and only there.
  \<^item> When the request of a case emits \<open>error\<close> or \<open>timeout\<close>, the executor resolves with
    status 0 and a message (\<open>executeRequest_failure\<close>), the loop counts a failure and stores
    a result that is not passed, whatever the type of the case (\<open>runOne_failure\<close>), and no
    request is handed to the executor twice (\<open>loop_calls\<close>). The run of
    \<open>curl http://x.y/z\<close> on a network where every request times out shows it.
  \<^item> When the connection is lost after the response has begun, there is no outcome at
    all: the promise of \<open>executeRequest\<close> is never resolved, the loop never resumes, no result
    is stored, no failure is counted and no summary is printed. The same run on a network
    where every response is lost shows it.
\<close>

theorem lost_response_is_no_outcome:
  "executeRequest timeouts [] getXY
     = (Some \<lparr> status = 0, error = Some (Message ''Request timeout''), body = JNull,
               responseHeaders = [] \<rparr>, [getXY])
   \<and> runTests silent (sconst 0) timeouts ''curl http://x.y/z'' 201
     = \<lparr> results = [mkResult (positiveCase getXY 201) (errorResponse (Message ''Request timeout''))],
         passCount = 0, failCount = 1, calls = [getXY],
         generated = [positiveCase getXY 201], outcome = SummaryPrinted \<rparr>
   \<and> \<not> passed (mkResult (positiveCase getXY 201) (errorResponse (Message ''Request timeout'')))
   \<and> executeRequest lostResponses [] getXY = (None, [getXY])
   \<and> runTests silent (sconst 0) lostResponses ''curl http://x.y/z'' 201
     = \<lparr> results = [], passCount = 0, failCount = 0, calls = [getXY],
         generated = [positiveCase getXY 201], outcome = NeverResumed \<rparr>"
proof -
  have url: "url (parseCurl silent ''curl http://x.y/z'') \<noteq> []"
    by (simp add: parse_sample_get)
  have req: "request (positiveCase getXY 201) = getXY"
    by (simp add: positiveCase_def cloneRequest_def getXY_def)
  have nofail: "postDataFailure (data getXY) = None" "\<not> formatCurlSummaryThrows getXY"
    by (simp_all add: postDataFailure_def formatCurlSummaryThrows_def getXY_def)
  have t: "executeRequest timeouts cs getXY
             = (Some (errorResponse (Message ''Request timeout'')), cs @ [getXY])" for cs
    by (simp add: executeRequest_def Let_def timeouts_def resolved_def nofail)
  have l: "executeRequest lostResponses cs getXY = (None, cs @ [getXY])" for cs
    by (rule executeRequest_lost) (simp_all add: lostResponses_def nofail)
  have "runTests silent (sconst 0) timeouts ''curl http://x.y/z'' 201
     = \<lparr> results = [mkResult (positiveCase getXY 201) (errorResponse (Message ''Request timeout''))],
         passCount = 0, failCount = 1, calls = [getXY],
         generated = [positiveCase getXY 201], outcome = SummaryPrinted \<rparr>"
    using url
    by (simp add: runTests_def Let_def generated_sample_get req t runOne_def nofail
        statusLabel_def errorResponse_def)
  moreover have "runTests silent (sconst 0) lostResponses ''curl http://x.y/z'' 201
     = \<lparr> results = [], passCount = 0, failCount = 0, calls = [getXY],
         generated = [positiveCase getXY 201], outcome = NeverResumed \<rparr>"
    using url by (simp add: runTests_def Let_def generated_sample_get req l)
  moreover have "\<not> passed (mkResult (positiveCase getXY 201) (errorResponse (Message ''Request timeout'')))"
    by (simp add: passed_mkResult verdict_zero errorResponse_def)
  ultimately show ?thesis
    using t [of "[]"] l [of "[]"] by (simp add: errorResponse_def)
qed
subsection \<open>The method\<close>

text \<open>The matchers, said in words: what a run, a literal and a flag with its word match.\<close>

lemma takeWhile_run:
  assumes "list_all cls a" and "case r of [] \<Rightarrow> True | c # cs \<Rightarrow> \<not> cls c"
  shows "takeWhile cls (a @ r) = a" and "dropWhile cls (a @ r) = r"
  using assms by (induction a) (auto split: list.splits)

lemma run1_iff:
  "run1 cls s = Some (a, r) \<longleftrightarrow>
     a \<noteq> [] \<and> list_all cls a \<and> s = a @ r \<and> (case r of [] \<Rightarrow> True | c # cs \<Rightarrow> \<not> cls c)"
proof
  assume "run1 cls s = Some (a, r)"
  then have a: "a = takeWhile cls s" "a \<noteq> []" and r: "r = dropWhile cls s"
    by (auto simp: run1_def split: if_splits)
  have "case dropWhile cls s of [] \<Rightarrow> True | c # cs \<Rightarrow> \<not> cls c"
    by (induction s) auto
  with a r show "a \<noteq> [] \<and> list_all cls a \<and> s = a @ r
                 \<and> (case r of [] \<Rightarrow> True | c # cs \<Rightarrow> \<not> cls c)"
    by (auto simp: list_all_iff dest: set_takeWhileD)
next
  assume "a \<noteq> [] \<and> list_all cls a \<and> s = a @ r
          \<and> (case r of [] \<Rightarrow> True | c # cs \<Rightarrow> \<not> cls c)"
  then show "run1 cls s = Some (a, r)"
    by (simp add: run1_def takeWhile_run)
qed

lemma litI_iff:
  "litI p s = Some r \<longleftrightarrow> (\<exists>f. s = f @ r \<and> toUpperCase f = toUpperCase p)"
proof
  assume "litI p s = Some r"
  then have "s = take (length p) s @ r" "toUpperCase (take (length p) s) = toUpperCase p"
    by (auto simp: litI_def split: if_splits)
  then show "\<exists>f. s = f @ r \<and> toUpperCase f = toUpperCase p"
    by blast
next
  assume "\<exists>f. s = f @ r \<and> toUpperCase f = toUpperCase p"
  then obtain f where f: "s = f @ r" "toUpperCase f = toUpperCase p"
    by blast
  then have "length f = length p"
    using map_eq_imp_length_eq [of toUpperChar f toUpperChar p] by (simp add: toUpperCase_def)
  with f show "litI p s = Some r"
    by (simp add: litI_def)
qed

lemma word_not_space: "isWordChar c \<Longrightarrow> \<not> isSpace c"
  by (auto simp: isWordChar_def isSpace_def lowerCaseLetters_def upperCaseLetters_def)

lemma flagWord_iff:
  "flagWord flag s = Some w \<longleftrightarrow>
     (\<exists>f ws rest.
        s = f @ ws @ w @ rest \<and> toUpperCase f = toUpperCase flag
        \<and> ws \<noteq> [] \<and> list_all isSpace ws
        \<and> w \<noteq> [] \<and> list_all isWordChar w
        \<and> (case rest of [] \<Rightarrow> True | c # cs \<Rightarrow> \<not> isWordChar c))"
proof
  assume "flagWord flag s = Some w"
  then obtain s1 ws s2 rest where
    "litI flag s = Some s1" "run1 isSpace s1 = Some (ws, s2)" "run1 isWordChar s2 = Some (w, rest)"
    by (auto simp: flagWord_def split: option.splits)
  then show "\<exists>f ws rest.
        s = f @ ws @ w @ rest \<and> toUpperCase f = toUpperCase flag
        \<and> ws \<noteq> [] \<and> list_all isSpace ws
        \<and> w \<noteq> [] \<and> list_all isWordChar w
        \<and> (case rest of [] \<Rightarrow> True | c # cs \<Rightarrow> \<not> isWordChar c)"
    unfolding litI_iff run1_iff by blast
next
  assume "\<exists>f ws rest.
        s = f @ ws @ w @ rest \<and> toUpperCase f = toUpperCase flag
        \<and> ws \<noteq> [] \<and> list_all isSpace ws
        \<and> w \<noteq> [] \<and> list_all isWordChar w
        \<and> (case rest of [] \<Rightarrow> True | c # cs \<Rightarrow> \<not> isWordChar c)"
  then obtain f ws rest where s: "s = f @ ws @ w @ rest" and f: "toUpperCase f = toUpperCase flag"
    and ws: "ws \<noteq> []" "list_all isSpace ws"
    and w: "w \<noteq> []" "list_all isWordChar w"
    and rest: "case rest of [] \<Rightarrow> True | c # cs \<Rightarrow> \<not> isWordChar c"
    by blast
  have "litI flag s = Some (ws @ w @ rest)"
    unfolding litI_iff using s f by blast
  moreover have "run1 isSpace (ws @ w @ rest) = Some (ws, w @ rest)"
    unfolding run1_iff using ws w by (cases w) (auto dest: word_not_space)
  moreover have "run1 isWordChar (w @ rest) = Some (w, rest)"
    unfolding run1_iff using w rest by simp
  ultimately show "flagWord flag s = Some w"
    by (simp add: flagWord_def)
qed

lemma upper_flags:
  "toUpperCase ''-X'' = ''-X''" "toUpperCase ''--request'' = ''--REQUEST''"
  by code_simp+

lemma toUpperChar_dash: "toUpperChar c = CHR ''-'' \<Longrightarrow> toUpperChar c \<noteq> CHR ''X''"
  by simp

text \<open>At one position the two alternatives exclude each other: the second character decides.\<close>

lemma flags_exclusive:
  assumes "t = f @ r" and "toUpperCase f = ''-X''"
    and "t = f' @ r'" and "toUpperCase f' = ''--REQUEST''"
  shows False
proof -
  from assms(2) obtain c1 c2 where f: "f = [c1, c2]" and c2: "toUpperChar c2 = CHR ''X''"
    by (auto simp: toUpperCase_def)
  from assms(4) obtain d1 d2 ds where f': "f' = d1 # d2 # ds" and d2: "toUpperChar d2 = CHR ''-''"
    by (auto simp: toUpperCase_def)
  from assms(1,3) f f' have "c2 = d2"
    by simp
  with c2 d2 show False
    by simp
qed

lemma methodAt_iff: "methodAt t = Some w \<longleftrightarrow> flagHead t w"
proof
  assume "methodAt t = Some w"
  then have "flagWord ''-X'' t = Some w \<or> flagWord ''--request'' t = Some w"
    by (auto simp: methodAt_def split: option.splits)
  then show "flagHead t w"
    unfolding flagWord_iff flagHead_def upper_flags by blast
next
  assume "flagHead t w"
  then obtain flag ws rest where t: "t = flag @ ws @ w @ rest"
    and flag: "toUpperCase flag = ''-X'' \<or> toUpperCase flag = ''--REQUEST''"
    and rest: "ws \<noteq> []" "list_all isSpace ws" "w \<noteq> []" "list_all isWordChar w"
      "case rest of [] \<Rightarrow> True | c # cs \<Rightarrow> \<not> isWordChar c"
    unfolding flagHead_def by blast
  from flag show "methodAt t = Some w"
  proof
    assume "toUpperCase flag = ''-X''"
    with t rest have "flagWord ''-X'' t = Some w"
      unfolding flagWord_iff upper_flags by blast
    then show ?thesis
      by (simp add: methodAt_def)
  next
    assume up: "toUpperCase flag = ''--REQUEST''"
    with t rest have second: "flagWord ''--request'' t = Some w"
      unfolding flagWord_iff upper_flags by blast
    have "flagWord ''-X'' t = None"
    proof (cases "flagWord ''-X'' t")
      case (Some w')
      then obtain f r where "t = f @ r" "toUpperCase f = ''-X''"
        unfolding flagWord_iff upper_flags by blast
      with flags_exclusive [OF this t up] show ?thesis
        by simp
    qed simp
    with second show ?thesis
      by (simp add: methodAt_def)
  qed
qed

text \<open>\<open>firstMatch\<close> finds the match at the leftmost position that has one.\<close>

lemma firstMatch_iff:
  "firstMatch m s = Some r \<longleftrightarrow>
     (\<exists>n \<le> length s. m (drop n s) = Some r \<and> (\<forall>k < n. m (drop k s) = None))"
proof (induction s)
  case Nil
  show ?case by simp
next
  case (Cons c cs)
  show ?case
  proof (cases "m (c # cs)")
    case (Some r')
    have "(\<exists>n \<le> length (c # cs). m (drop n (c # cs)) = Some r
             \<and> (\<forall>k < n. m (drop k (c # cs)) = None)) \<longleftrightarrow> r' = r"
    proof
      assume "\<exists>n \<le> length (c # cs). m (drop n (c # cs)) = Some r
                \<and> (\<forall>k < n. m (drop k (c # cs)) = None)"
      then obtain n where n: "m (drop n (c # cs)) = Some r" "\<forall>k < n. m (drop k (c # cs)) = None"
        by blast
      have "n = 0"
      proof (rule ccontr)
        assume "n \<noteq> 0"
        with n(2) have "m (drop 0 (c # cs)) = None" by blast
        with Some show False by simp
      qed
      with n(1) Some show "r' = r" by simp
    next
      assume "r' = r"
      with Some show "\<exists>n \<le> length (c # cs). m (drop n (c # cs)) = Some r
                        \<and> (\<forall>k < n. m (drop k (c # cs)) = None)"
        by (intro exI [of _ 0]) simp
    qed
    with Some show ?thesis by simp
  next
    case None
    have "(\<exists>n \<le> length (c # cs). m (drop n (c # cs)) = Some r
             \<and> (\<forall>k < n. m (drop k (c # cs)) = None))
          \<longleftrightarrow> (\<exists>n \<le> length cs. m (drop n cs) = Some r \<and> (\<forall>k < n. m (drop k cs) = None))"
    proof
      assume "\<exists>n \<le> length (c # cs). m (drop n (c # cs)) = Some r
                \<and> (\<forall>k < n. m (drop k (c # cs)) = None)"
      then obtain n where n: "n \<le> length (c # cs)" "m (drop n (c # cs)) = Some r"
        "\<forall>k < n. m (drop k (c # cs)) = None"
        by blast
      with None obtain n' where n': "n = Suc n'"
        by (cases n) auto
      have "\<forall>k < n'. m (drop k cs) = None"
      proof (intro allI impI)
        fix k assume "k < n'"
        then have "Suc k < n" using n' by simp
        with n(3) have "m (drop (Suc k) (c # cs)) = None" by blast
        then show "m (drop k cs) = None" by simp
      qed
      with n n' show "\<exists>n \<le> length cs. m (drop n cs) = Some r \<and> (\<forall>k < n. m (drop k cs) = None)"
        by (intro exI [of _ n']) simp
    next
      assume "\<exists>n \<le> length cs. m (drop n cs) = Some r \<and> (\<forall>k < n. m (drop k cs) = None)"
      then obtain n where n: "n \<le> length cs" "m (drop n cs) = Some r"
        "\<forall>k < n. m (drop k cs) = None"
        by blast
      have "\<forall>k < Suc n. m (drop k (c # cs)) = None"
      proof (intro allI impI)
        fix k assume "k < Suc n"
        then show "m (drop k (c # cs)) = None"
          using None n(3) by (cases k) auto
      qed
      with n show "\<exists>n \<le> length (c # cs). m (drop n (c # cs)) = Some r
                     \<and> (\<forall>k < n. m (drop k (c # cs)) = None)"
        by (intro exI [of _ "Suc n"]) simp
    qed
    with None Cons.IH show ?thesis by simp
  qed
qed

lemma firstMatch_None_iff:
  "firstMatch m s = None \<longleftrightarrow> (\<forall>n \<le> length s. m (drop n s) = None)"
proof (induction s)
  case Nil
  show ?case by simp
next
  case (Cons c cs)
  have "(\<forall>n \<le> length (c # cs). m (drop n (c # cs)) = None)
        \<longleftrightarrow> m (c # cs) = None \<and> (\<forall>n \<le> length cs. m (drop n cs) = None)"
  proof
    assume all: "\<forall>n \<le> length (c # cs). m (drop n (c # cs)) = None"
    then have "m (drop 0 (c # cs)) = None" by blast
    moreover have "m (drop n cs) = None" if "n \<le> length cs" for n
      using all [rule_format, of "Suc n"] that by simp
    ultimately show "m (c # cs) = None \<and> (\<forall>n \<le> length cs. m (drop n cs) = None)"
      by simp
  next
    assume "m (c # cs) = None \<and> (\<forall>n \<le> length cs. m (drop n cs) = None)"
    then show "\<forall>n \<le> length (c # cs). m (drop n (c # cs)) = None"
      by (auto simp: drop_Cons split: nat.splits)
  qed
  with Cons.IH show ?case
    by (simp split: option.splits)
qed

lemma flagAt_iff: "flagAt cmd n w \<longleftrightarrow> n \<le> length cmd \<and> methodAt (drop n cmd) = Some w"
  by (simp add: flagAt_def methodAt_iff)

lemma methodMatch_leftmost:
  assumes "flagAt cmd n w" and "\<forall>m < n. \<forall>w'. \<not> flagAt cmd m w'"
  shows "methodMatch cmd = Some w"
proof -
  have "methodAt (drop k cmd) = None" if "k < n" for k
  proof (cases "methodAt (drop k cmd)")
    case (Some w')
    with that assms(1) have "flagAt cmd k w'"
      by (simp add: flagAt_iff)
    with assms(2) that show ?thesis by blast
  qed simp
  with assms(1) show ?thesis
    unfolding methodMatch_def firstMatch_iff flagAt_iff by blast
qed

lemma methodMatch_none:
  assumes "\<forall>n w. \<not> flagAt cmd n w"
  shows "methodMatch cmd = None"
proof -
  have "methodAt (drop n cmd) = None" if "n \<le> length cmd" for n
  proof (cases "methodAt (drop n cmd)")
    case (Some w)
    with that have "flagAt cmd n w" by (simp add: flagAt_iff)
    with assms show ?thesis by blast
  qed simp
  then show ?thesis
    unfolding methodMatch_def firstMatch_None_iff by blast
qed

lemma method_samples:
  "methodMatch proxyCommand = Some ''proxy''"
  "methodMatch dashCommand = Some ''next''"
  "methodMatch zeroCommand = None"
  "methodMatch plainObjectCommand = None"
  "toUpperCase ''proxy'' = ''PROXY''"
  "toUpperCase ''next'' = ''NEXT''"
  by code_simp+

lemma flag_samples:
  "includesStr proxyCommand ''-X'' = False"
  "includesStr proxyCommand ''--request'' = False"
  "includesStr dashCommand ''-X'' = False"
  "includesStr dashCommand ''--request'' = False"
  by code_simp+

lemma method_of_parseCurl:
  "method (parseCurl ex cmd) =
     (let m = (case methodMatch cmd of Some w \<Rightarrow> toUpperCase w | None \<Rightarrow> ''GET'')
      in if truthy (ex cmd) \<and> m = ''GET'' then ''POST'' else m)"
  by (simp add: parseCurl_def Let_def)

text \<open>
  C8, as the spec states it, fails twice.
  \<^item> Without any method flag the method is not always GET: the flag is looked for in
    either letter case and anywhere in the text. In \<open>curl -x proxy.local:3128 http://a.b/c\<close>
    the proxy flag \<open>-x\<close> makes the method PROXY, and in \<open>curl http://a.b/pre-x next\<close> the end
    of the URL does, with NEXT; neither text contains \<open>-X\<close> or \<open>--request\<close>.
  \<^item> A payload that is found does not always promote GET: on the data \<open>0\<close> the extraction
    returns the number 0, which the test \<open>parsed.data && \<dots>\<close> takes for no data, and the
    method stays GET.
\<close>

theorem method_without_flag_is_not_GET:
  "\<not> includesStr proxyCommand ''-X'' \<and> \<not> includesStr proxyCommand ''--request''
   \<and> method (parseCurl silent proxyCommand) = ''PROXY''
   \<and> \<not> includesStr dashCommand ''-X'' \<and> \<not> includesStr dashCommand ''--request''
   \<and> method (parseCurl silent dashCommand) = ''NEXT''
   \<and> data (parseCurl zeroFound zeroCommand) = JNum 0
   \<and> method (parseCurl zeroFound zeroCommand) = ''GET''"
  by (simp add: method_of_parseCurl Let_def method_samples flag_samples silent_def zeroFound_def)
    (simp add: parseCurl_def Let_def zeroFound_def)

text \<open>
  C8, amended. For every input text the method is decided by the leftmost position at
  which \<open>-X\<close> or \<open>--request\<close>, in either letter case, is followed by white space and a word
  (anywhere in the text: also inside another word, and also \<open>-x\<close>):
  \<^item> if there is such a position, the method is the word there in upper case, except that
    the word GET becomes POST when the extracted payload is truthy;
  \<^item> if there is none, the method is GET, and POST when the extracted payload is truthy.
  A method other than GET is never changed, so nothing is ever changed to GET; a payload
  that is falsy (0, \<open>false\<close>, the empty string) promotes nothing.
\<close>

theorem method_flag_default_promotion:
  "(\<forall>n w. flagAt cmd n w \<and> (\<forall>m < n. \<forall>w'. \<not> flagAt cmd m w') \<longrightarrow>
      method (parseCurl ex cmd)
        = (if truthy (ex cmd) \<and> toUpperCase w = ''GET'' then ''POST'' else toUpperCase w))
   \<and> ((\<forall>n w. \<not> flagAt cmd n w) \<longrightarrow>
      method (parseCurl ex cmd) = (if truthy (ex cmd) then ''POST'' else ''GET''))
   \<and> data (parseCurl ex cmd) = ex cmd"
proof (intro conjI allI impI)
  fix n w
  assume "flagAt cmd n w \<and> (\<forall>m < n. \<forall>w'. \<not> flagAt cmd m w')"
  then have "methodMatch cmd = Some w"
    using methodMatch_leftmost by blast
  then show "method (parseCurl ex cmd)
        = (if truthy (ex cmd) \<and> toUpperCase w = ''GET'' then ''POST'' else toUpperCase w)"
    by (simp add: method_of_parseCurl Let_def)
next
  assume "\<forall>n w. \<not> flagAt cmd n w"
  then have "methodMatch cmd = None"
    by (rule methodMatch_none)
  then show "method (parseCurl ex cmd) = (if truthy (ex cmd) then ''POST'' else ''GET'')"
    by (simp add: method_of_parseCurl Let_def)
next
  show "data (parseCurl ex cmd) = ex cmd"
    by (simp add: parseCurl_def Let_def)
qed

lemma no_flag_iff: "(\<forall>n w. \<not> flagAt cmd n w) \<longleftrightarrow> methodMatch cmd = None"
  unfolding methodMatch_def firstMatch_None_iff flagAt_iff by auto

lemma flag_positions:
  "5 \<le> length proxyCommand \<and> methodAt (drop 5 proxyCommand) = Some ''proxy''"
  "list_all (\<lambda>m. methodAt (drop m proxyCommand) = None) [0 ..< 5]"
  "5 \<le> length objectCommand \<and> methodAt (drop 5 objectCommand) = Some ''get''"
  "list_all (\<lambda>m. methodAt (drop m objectCommand) = None) [0 ..< 5]"
  "toUpperCase ''get'' = ''GET''"
  by code_simp+

theorem method_flag_default_promotion_witness:
  "flagAt proxyCommand 5 ''proxy''
   \<and> method (parseCurl silent proxyCommand) = ''PROXY''
   \<and> flagAt objectCommand 5 ''get''
   \<and> method (parseCurl objectFound objectCommand) = ''POST''
   \<and> method (parseCurl silent ''curl http://x.y/z'') = ''GET''
   \<and> method (parseCurl objectFound plainObjectCommand) = ''POST''
   \<and> method (parseCurl zeroFound zeroCommand) = ''GET''"
proof -
  have proxy: "flagAt proxyCommand 5 ''proxy''" "\<forall>m < 5. \<forall>w'. \<not> flagAt proxyCommand m w'"
    and object: "flagAt objectCommand 5 ''get''" "\<forall>m < 5. \<forall>w'. \<not> flagAt objectCommand m w'"
    using flag_positions by (simp_all add: flagAt_iff list_all_iff)
  have none: "\<forall>n w. \<not> flagAt ''curl http://x.y/z'' n w" "\<forall>n w. \<not> flagAt zeroCommand n w"
    "\<forall>n w. \<not> flagAt plainObjectCommand n w"
    unfolding no_flag_iff by (simp_all add: methodMatch_samples method_samples)
  show ?thesis
    using method_flag_default_promotion [of proxyCommand silent]
      method_flag_default_promotion [of objectCommand objectFound]
      method_flag_default_promotion [of "''curl http://x.y/z''" silent]
      method_flag_default_promotion [of plainObjectCommand objectFound]
      method_flag_default_promotion [of zeroCommand zeroFound]
      proxy object none
    by (simp add: silent_def objectFound_def zeroFound_def method_samples flag_positions)
qed
subsection \<open>Missing fields\<close>

lemma jsonClone_wellFormed: "wellFormed v \<Longrightarrow> jsonClone v = v"
proof (induction v rule: jsonClone.induct)
  case (1 xs)
  then have "map (\<lambda>x. if x = JUndefined then JNull else jsonClone x) xs = map (\<lambda>x. x) xs"
    by (intro map_cong) (auto simp: list_all_iff)
  then show ?case by simp
next
  case (2 kvs)
  have keep: "filter (\<lambda>(k, v). v \<noteq> JUndefined) kvs = kvs"
    using "2.prems" by (auto simp: list_all_iff filter_id_conv)
  have "map (\<lambda>(k, v). (k, jsonClone v)) kvs = map (\<lambda>kv. kv) kvs"
  proof (intro map_cong refl)
    fix kv assume "kv \<in> set kvs"
    then have "kv \<in> set (filter (\<lambda>(k, v). v \<noteq> JUndefined) kvs)" and "wellFormed (snd kv)"
      using keep "2.prems" by (auto simp: list_all_iff)
    then have "jsonClone (snd kv) = snd kv"
      using "2.IH" [of kv "fst kv" "snd kv"] by simp
    then show "(case kv of (k, v) \<Rightarrow> (k, jsonClone v)) = kv"
      by (cases kv) simp
  qed
  with keep show ?case by simp
qed simp_all

text \<open>Reading a key of an object with distinct keys.\<close>

lemma getProp_entry:
  "distinct (map fst kvs) \<Longrightarrow> (k, v) \<in> set kvs \<Longrightarrow> getProp kvs k = v"
  by (simp add: getProp_def)

lemma keys_delete: "keys (AList.delete k kvs) = removeAll k (keys kvs)"
  by (simp add: keys_def delete_keys)

lemma keys_deleteNested: "keys (deleteNested kvs field n) = keys kvs"
  unfolding keys_def deleteNested_def
  by (induction kvs) auto

lemma getProp_deleteNested_other:
  "k \<noteq> field \<Longrightarrow> getProp (deleteNested kvs field n) k = getProp kvs k"
  by (simp add: getProp_def deleteNested_def map_of_map_entry)

lemma getProp_deleteNested_same:
  "getProp kvs field = JObj sub \<Longrightarrow>
   getProp (deleteNested kvs field n) field = JObj (AList.delete n sub)"
  by (auto simp: getProp_def deleteNested_def map_of_map_entry split: option.splits)

lemma delete_changes: "k \<in> set (keys kvs) \<Longrightarrow> AList.delete k kvs \<noteq> kvs"
proof
  assume "k \<in> set (keys kvs)" and "AList.delete k kvs = kvs"
  then have "k \<in> fst ` set (AList.delete k kvs)"
    by (simp add: keys_def)
  then show False
    by (simp add: delete_notin_dom)
qed

lemma delete_inj:
  assumes "k \<in> set (keys kvs)" and "AList.delete k kvs = AList.delete k' kvs"
  shows "k = k'"
proof (rule ccontr)
  assume "k \<noteq> k'"
  with assms(1) have "k \<in> set (keys (AList.delete k' kvs))"
    by (simp add: keys_delete)
  with assms(2) have "k \<in> fst ` set (AList.delete k kvs)"
    by (simp add: keys_def)
  then show False
    by (simp add: delete_notin_dom)
qed

lemma delete_not_deleteNested:
  "k \<in> set (keys kvs) \<Longrightarrow> AList.delete k kvs \<noteq> deleteNested kvs field n"
proof
  assume "k \<in> set (keys kvs)" and "AList.delete k kvs = deleteNested kvs field n"
  then have "keys (AList.delete k kvs) = keys kvs"
    by (simp add: keys_deleteNested)
  then have "set (removeAll k (keys kvs)) = set (keys kvs)"
    by (simp add: keys_delete)
  with \<open>k \<in> set (keys kvs)\<close> show False
    by auto
qed

text \<open>Counting in lists.\<close>

lemma count_in_distinct:
  "distinct xs \<Longrightarrow> x \<in> set xs \<Longrightarrow> length (filter (\<lambda>y. y = x) xs) = 1"
  by (induction xs) (auto simp: filter_empty_conv)

lemma count_inj_map:
  assumes "distinct xs" and "x \<in> set xs" and "\<And>y. y \<in> set xs \<Longrightarrow> f y = f x \<Longrightarrow> y = x"
  shows "length (filter (\<lambda>p. p = f x) (map f xs)) = 1"
proof -
  have "filter (\<lambda>y. f y = f x) xs = filter (\<lambda>y. y = x) xs"
    using assms(3) by (intro filter_cong) auto
  then show ?thesis
    using count_in_distinct [OF assms(1,2)] by (simp add: filter_map comp_def)
qed

lemma count_concat_single:
  assumes "distinct ks" and "k0 \<in> set ks"
    and "\<And>k. k \<in> set ks \<Longrightarrow> k \<noteq> k0 \<Longrightarrow> filter P (f k) = []"
  shows "length (filter P (concat (map f ks))) = length (filter P (f k0))"
  using assms
proof (induction ks)
  case Nil
  then show ?case by simp
next
  case (Cons k ks)
  show ?case
  proof (cases "k = k0")
    case True
    with Cons.prems have "\<And>k'. k' \<in> set ks \<Longrightarrow> filter P (f k') = []"
      by auto
    then have "filter P (concat (map f ks)) = []"
      by (auto simp: filter_empty_conv)
    with True show ?thesis by simp
  next
    case False
    with Cons.prems have "filter P (f k) = []" and "k0 \<in> set ks" and "distinct ks"
      by auto
    with Cons show ?thesis by simp
  qed
qed

text \<open>The paths of the traversal.\<close>

lemma traverse_longer: "(p, v) \<in> set (traverseObject kvs pre) \<Longrightarrow> length pre < length p"
  by (induction kvs pre rule: traverseObject.induct) (auto split: json.splits)

lemma traverse_mem:
  "(p, v) \<in> set (traverseObject kvs pre) \<Longrightarrow>
   (\<exists>k. (k, v) \<in> set kvs \<and> p = pre @ [k])
   \<or> (\<exists>k sub. (k, JObj sub) \<in> set kvs \<and> (p, v) \<in> set (traverseObject sub (pre @ [k])))"
proof (induction kvs)
  case Nil
  then show ?case by simp
next
  case (Cons kv kvs)
  obtain k x where kv: "kv = (k, x)" by (cases kv)
  from Cons.prems kv consider "p = pre @ [k] \<and> v = x"
    | sub where "x = JObj sub" and "(p, v) \<in> set (traverseObject sub (pre @ [k]))"
    | "(p, v) \<in> set (traverseObject kvs pre)"
    by (auto split: json.splits)
  then show ?case
  proof cases
    case 1
    with kv show ?thesis by auto
  next
    case 2
    with kv show ?thesis by auto
  next
    case 3
    from Cons.IH [OF this] show ?thesis by auto
  qed
qed

lemma shallow_path_cases:
  assumes "P \<in> set (pathsOf kvs)" and "length P \<le> 2"
  obtains k v where "(k, v) \<in> set kvs" and "P = [k]"
  | k sub n v where "(k, JObj sub) \<in> set kvs" and "(n, v) \<in> set sub" and "P = [k, n]"
proof -
  from assms(1) obtain v where "(P, v) \<in> set (traverseObject kvs [])"
    by (auto simp: pathsOf_def)
  from traverse_mem [OF this] show thesis
  proof (elim disjE exE conjE)
    fix k assume "(k, v) \<in> set kvs" "P = [] @ [k]"
    then show thesis by (intro that(1)) auto
  next
    fix k sub assume top: "(k, JObj sub) \<in> set kvs"
      and "(P, v) \<in> set (traverseObject sub ([] @ [k]))"
    from traverse_mem [OF this(2)] show thesis
    proof (elim disjE exE conjE)
      fix n assume "(n, v) \<in> set sub" "P = ([] @ [k]) @ [n]"
      with top show thesis by (intro that(2)) auto
    next
      fix n sub' assume "(P, v) \<in> set (traverseObject sub' (([] @ [k]) @ [n]))"
      then have "2 < length P"
        using traverse_longer by fastforce
      with assms(2) show thesis by simp
    qed
  qed
qed

lemma shallowest_count:
  "length (filter (\<lambda>p. length p \<le> Suc (length pre)) (map fst (traverseObject kvs pre)))
     = length kvs"
proof (induction kvs)
  case Nil
  show ?case by simp
next
  case (Cons kv kvs)
  obtain k x where kv: "kv = (k, x)" by (cases kv)
  have "filter (\<lambda>p. length p \<le> Suc (length pre))
          (map fst (traverseObject sub (pre @ [k]))) = []" for sub
    using traverse_longer [of _ _ sub "pre @ [k]"] by (fastforce simp: filter_empty_conv)
  then have deeper: "length (filter (\<lambda>p. length p \<le> Suc (length pre))
                      (map fst (traverseObject sub (pre @ [k])))) = 0" for sub
    by simp
  show ?case
    using Cons.IH deeper by (simp add: kv split: json.splits)
qed

lemma shallow_count:
  "length (filter (\<lambda>p. length p \<le> Suc (Suc (length pre))) (map fst (traverseObject kvs pre)))
     = length kvs + sum_list (map (\<lambda>kv. length (entriesOf (snd kv))) kvs)"
proof (induction kvs)
  case Nil
  show ?case by simp
next
  case (Cons kv kvs)
  obtain k x where kv: "kv = (k, x)" by (cases kv)
  have below: "length (filter (\<lambda>p. length p \<le> Suc (Suc (length pre)))
                   (map fst (traverseObject sub (pre @ [k])))) = length sub" for sub
    using shallowest_count [of "pre @ [k]" sub] by simp
  show ?case
    using Cons.IH below by (simp add: kv split: json.splits)
qed

text \<open>The payloads of the cases of \<open>generateMissingFieldTests\<close>.\<close>

lemma payloadCount_alt:
  "payloadCount tcs p = length (filter (\<lambda>d. d = JObj p) (map (\<lambda>tc. data (request tc)) tcs))"
  by (simp add: payloadCount_def filter_map comp_def)

lemma missing_payloads:
  assumes "data base = JObj kvs" and "wellFormed (JObj kvs)"
  shows "map (\<lambda>tc. data (request tc)) (generateMissingFieldTests base) =
           map (\<lambda>k. JObj (AList.delete k kvs)) (keys kvs)
           @ concat (map (\<lambda>k. if isPlainObject (getProp kvs k)
                               then map (\<lambda>n. JObj (deleteNested kvs k n))
                                      (keys (entriesOf (getProp kvs k)))
                               else [])
                      (keys kvs))"
proof -
  have "jsonClone (JObj kvs) = JObj kvs"
    using assms(2) by (rule jsonClone_wellFormed)
  then show ?thesis
    unfolding generateMissingFieldTests_def Let_def assms(1)
    by (simp add: negativeCase_def map_concat comp_def if_distrib [of "map _"] cong: if_cong)
qed

lemma deleteAt_nested:
  "getProp kvs k = JObj sub \<Longrightarrow> deleteAt kvs [k, n] = deleteNested kvs k n"
  unfolding deleteNested_def
  by (induction kvs) (auto simp: getProp_def split: if_splits)

lemma missing_count_top:
  assumes "distinct (keys kvs)" and "k0 \<in> set (keys kvs)"
  shows "length (filter (\<lambda>d. d = JObj (AList.delete k0 kvs))
           (map (\<lambda>k. JObj (AList.delete k kvs)) (keys kvs))) = 1"
  using assms(1,2)
proof (rule count_inj_map)
  fix k assume "k \<in> set (keys kvs)" and "JObj (AList.delete k kvs) = JObj (AList.delete k0 kvs)"
  then show "k = k0"
    using delete_inj [of k kvs k0] by simp
qed

lemma missing_count_nested_of_top:
  assumes "k0 \<in> set (keys kvs)"
  shows "filter (\<lambda>d. d = JObj (AList.delete k0 kvs))
           (concat (map (\<lambda>k. if isPlainObject (getProp kvs k)
                               then map (\<lambda>n. JObj (deleteNested kvs k n))
                                      (keys (entriesOf (getProp kvs k)))
                               else [])
                      (keys kvs))) = []"
  using delete_not_deleteNested [OF assms, symmetric]
  by (auto simp: filter_empty_conv split: if_splits)

lemma missing_count_top_of_nested:
  "filter (\<lambda>d. d = JObj (deleteNested kvs k0 n0))
     (map (\<lambda>k. JObj (AList.delete k kvs)) (keys kvs)) = []"
  using delete_not_deleteNested [of _ kvs k0 n0]
  by (auto simp: filter_empty_conv)

lemma missing_count_nested:
  assumes "distinct (keys kvs)" and "(k0, JObj sub0) \<in> set kvs"
    and "distinct (keys sub0)" and "n0 \<in> set (keys sub0)"
  shows "length (filter (\<lambda>d. d = JObj (deleteNested kvs k0 n0))
           (concat (map (\<lambda>k. if isPlainObject (getProp kvs k)
                               then map (\<lambda>n. JObj (deleteNested kvs k n))
                                      (keys (entriesOf (getProp kvs k)))
                               else [])
                      (keys kvs)))) = 1"
proof -
  let ?target = "JObj (deleteNested kvs k0 n0)"
  let ?nested = "\<lambda>k. if isPlainObject (getProp kvs k)
                     then map (\<lambda>n. JObj (deleteNested kvs k n)) (keys (entriesOf (getProp kvs k)))
                     else []"
  have k0: "k0 \<in> set (keys kvs)"
    using assms(2) by (force simp: keys_def)
  have at_k0: "getProp kvs k0 = JObj sub0"
    using assms(1,2) by (simp add: getProp_entry keys_def)
  have others: "filter (\<lambda>d. d = ?target) (?nested k) = []" if "k \<in> set (keys kvs)" "k \<noteq> k0" for k
  proof (cases "getProp kvs k")
    case (JObj sub)
    have "deleteNested kvs k n \<noteq> deleteNested kvs k0 n0" if "n \<in> set (keys sub)" for n
    proof
      assume eq: "deleteNested kvs k n = deleteNested kvs k0 n0"
      have "getProp (deleteNested kvs k n) k = JObj (AList.delete n sub)"
        using JObj by (rule getProp_deleteNested_same)
      moreover have "getProp (deleteNested kvs k0 n0) k = JObj sub"
        using \<open>k \<noteq> k0\<close> JObj by (simp add: getProp_deleteNested_other)
      ultimately have "AList.delete n sub = sub"
        using eq by simp
      with delete_changes [OF that] show False by simp
    qed
    with JObj show ?thesis
      by (auto simp: filter_empty_conv)
  qed (simp_all add: keys_def)
  have "length (filter (\<lambda>d. d = ?target) (concat (map ?nested (keys kvs))))
          = length (filter (\<lambda>d. d = ?target) (?nested k0))"
    using assms(1) k0 others by (rule count_concat_single)
  also have "\<dots> = length (filter (\<lambda>d. d = ?target)
                         (map (\<lambda>n. JObj (deleteNested kvs k0 n)) (keys sub0)))"
    by (simp add: at_k0)
  also have "\<dots> = 1"
    using assms(3,4)
  proof (rule count_inj_map)
    fix n assume n: "n \<in> set (keys sub0)"
      and "JObj (deleteNested kvs k0 n) = JObj (deleteNested kvs k0 n0)"
    then have "getProp (deleteNested kvs k0 n) k0 = getProp (deleteNested kvs k0 n0) k0"
      by simp
    then have "AList.delete n sub0 = AList.delete n0 sub0"
      by (simp add: getProp_deleteNested_same [OF at_k0])
    with n show "n = n0"
      by (rule delete_inj)
  qed
  finally show ?thesis .
qed

text \<open>
  C4, as the spec states it, fails: in the payload \<open>{a: {b: {c: 1}}}\<close> the leaf path
  \<open>a.b.c\<close> at depth 3 is visited by the traversal, and no case of the Missing-Field generator
  has the payload with that node deleted, \<open>{a: {b: {}}}\<close>. The generator emits two cases, for
  \<open>a\<close> and for \<open>a.b\<close>.
\<close>

theorem deep_leaf_has_no_missing_case:
  "wellFormed (JObj nested3)
   \<and> [''a'', ''b'', ''c''] \<in> set (pathsOf nested3)
   \<and> getPath nested3 [''a'', ''b'', ''c''] = JNum 1
   \<and> deleteAt nested3 [''a'', ''b'', ''c''] = [(''a'', JObj [(''b'', JObj [])])]
   \<and> map (\<lambda>tc. data (request tc)) (generateMissingFieldTests (sampleRequest\<lparr>data := JObj nested3\<rparr>))
       = [JObj [], JObj [(''a'', JObj [])]]
   \<and> payloadCount (generateMissingFieldTests (sampleRequest\<lparr>data := JObj nested3\<rparr>))
         (deleteAt nested3 [''a'', ''b'', ''c'']) = 0"
  by (simp add: nested3_def pathsOf_def payloadCount_def generateMissingFieldTests_def
      negativeCase_def keys_def getProp_def deleteNested_def)

text \<open>
  C4, amended: for every payload that is a mapping (as \<open>JSON.parse\<close> returns it) and for
  every path of the traversal at depth 1 or 2, the Missing-Field generator emits exactly one
  test case whose payload equals the original payload with the node at that path deleted
  and no other change. It emits no other case: the number of its cases is the number of the
  paths of depth 1 and 2.
\<close>

theorem missing_field_one_case_per_shallow_path:
  assumes "data base = JObj kvs" and "wellFormed (JObj kvs)"
  shows "(\<forall>P \<in> set (pathsOf kvs). length P \<le> 2 \<longrightarrow>
            payloadCount (generateMissingFieldTests base) (deleteAt kvs P) = 1)
         \<and> length (generateMissingFieldTests base)
             = length (filter (\<lambda>P. length P \<le> 2) (pathsOf kvs))"
proof (intro conjI ballI impI)
  have dist: "distinct (keys kvs)"
    using assms(2) by (simp add: keys_def)
  have payloads: "map (\<lambda>tc. data (request tc)) (generateMissingFieldTests base) =
           map (\<lambda>k. JObj (AList.delete k kvs)) (keys kvs)
           @ concat (map (\<lambda>k. if isPlainObject (getProp kvs k)
                               then map (\<lambda>n. JObj (deleteNested kvs k n))
                                      (keys (entriesOf (getProp kvs k)))
                               else [])
                      (keys kvs))"
    using assms by (rule missing_payloads)
  {
    fix P assume "P \<in> set (pathsOf kvs)" and "length P \<le> 2"
    then show "payloadCount (generateMissingFieldTests base) (deleteAt kvs P) = 1"
    proof (cases rule: shallow_path_cases)
      case (1 k v)
      then have k: "k \<in> set (keys kvs)"
        by (force simp: keys_def)
      show ?thesis
        unfolding payloadCount_alt payloads
        using missing_count_top [OF dist k] missing_count_nested_of_top [OF k]
        by (simp add: \<open>P = [k]\<close>)
    next
      case (2 k sub n v)
      have at_k: "getProp kvs k = JObj sub"
        using dist 2(1) by (simp add: getProp_entry keys_def)
      have "wellFormed (snd (k, JObj sub))"
        using assms(2) 2(1) unfolding wellFormed.simps list_all_iff by blast
      then have dsub: "distinct (keys sub)"
        by (simp add: keys_def)
      have n: "n \<in> set (keys sub)"
        using 2(2) by (force simp: keys_def)
      have target: "deleteAt kvs P = deleteNested kvs k n"
        unfolding \<open>P = [k, n]\<close> using at_k by (rule deleteAt_nested)
      show ?thesis
        unfolding payloadCount_alt payloads target
        using missing_count_nested [OF dist 2(1) dsub n] missing_count_top_of_nested [of kvs k n]
        by simp
    qed
  }
  have each: "(if isPlainObject (getProp kvs (fst kv))
               then length (keys (entriesOf (getProp kvs (fst kv)))) else 0)
              = length (entriesOf (snd kv))" if "kv \<in> set kvs" for kv
  proof -
    have "getProp kvs (fst kv) = snd kv"
      using dist that by (cases kv) (simp add: getProp_entry keys_def)
    then show ?thesis
      by (cases "snd kv") (simp_all add: keys_def)
  qed
  have "length (generateMissingFieldTests base)
          = length (map (\<lambda>tc. data (request tc)) (generateMissingFieldTests base))"
    by simp
  also have "\<dots> = length kvs + sum_list (map (\<lambda>kv. length (entriesOf (snd kv))) kvs)"
    unfolding payloads using each
    by (simp add: keys_def length_concat comp_def if_distrib [of length] cong: map_cong if_cong)
  also have "\<dots> = length (filter (\<lambda>P. length P \<le> 2) (pathsOf kvs))"
    using shallow_count [of "[]" kvs] by (simp add: pathsOf_def numeral_2_eq_2)
  finally show "length (generateMissingFieldTests base)
                  = length (filter (\<lambda>P. length P \<le> 2) (pathsOf kvs))" .
qed

theorem missing_field_one_case_per_shallow_path_witness:
  "wellFormed (JObj macBookEntries)
   \<and> pathsOf macBookEntries
       = [[''name''], [''data''], [''data'', ''year''], [''data'', ''price''],
          [''data'', ''CPU model''], [''data'', ''Hard disk size'']]
   \<and> payloadCount (generateMissingFieldTests (sampleRequest\<lparr>data := JObj macBookEntries\<rparr>))
         (deleteAt macBookEntries [''name'']) = 1
   \<and> payloadCount (generateMissingFieldTests (sampleRequest\<lparr>data := JObj macBookEntries\<rparr>))
         (deleteAt macBookEntries [''data'', ''price'']) = 1
   \<and> length (generateMissingFieldTests (sampleRequest\<lparr>data := JObj macBookEntries\<rparr>)) = 6"
proof -
  have wf: "wellFormed (JObj macBookEntries)"
    by (simp add: macBookEntries_def)
  have paths: "pathsOf macBookEntries
       = [[''name''], [''data''], [''data'', ''year''], [''data'', ''price''],
          [''data'', ''CPU model''], [''data'', ''Hard disk size'']]"
    by (simp add: macBookEntries_def pathsOf_def)
  show ?thesis
    using missing_field_one_case_per_shallow_path
      [of "sampleRequest\<lparr>data := JObj macBookEntries\<rparr>" macBookEntries]
    by (simp add: wf paths del: wellFormed.simps)
qed

end
